theory Spec2Isabelle
  imports Main "HOL-Library.Sublist" "HOL-Library.AList"
begin

section \<open>Strings\<close>

text \<open>
  Strings are lists of characters. The JavaScript string primitives used by the collector
  are written out below; \<open>toLowerCase\<close> maps the ASCII capitals and leaves every other
  character alone.
\<close>

definition lowerChar :: "char \<Rightarrow> char" where
  "lowerChar c =
     (case map_of (zip ''ABCDEFGHIJKLMNOPQRSTUVWXYZ'' ''abcdefghijklmnopqrstuvwxyz'') c of
        None \<Rightarrow> c
      | Some d \<Rightarrow> d)"

definition toLowerCase :: "string \<Rightarrow> string" where
  "toLowerCase s = map lowerChar s"

text \<open>\<open>s.split(c)\<close>: the pieces between the separators; never the empty list.\<close>

fun split_str :: "char \<Rightarrow> string \<Rightarrow> string list" where
  "split_str c [] = [[]]"
| "split_str c (x # xs) =
     (if x = c then [] # split_str c xs
      else (case split_str c xs of
              [] \<Rightarrow> [[x]]
            | y # ys \<Rightarrow> (x # y) # ys))"

text \<open>\<open>s.lastIndexOf(c)\<close>, with \<open>-1\<close> when the character does not occur.\<close>

fun lastIndexOf :: "string \<Rightarrow> char \<Rightarrow> int" where
  "lastIndexOf [] c = - 1"
| "lastIndexOf (x # xs) c =
     (let i = lastIndexOf xs c
      in if i \<ge> 0 then i + 1 else if x = c then 0 else - 1)"

text \<open>\<open>s.substring(i)\<close>: a negative start counts as \<open>0\<close>, a start past the end gives \<open>''''\<close>.\<close>

definition substring :: "string \<Rightarrow> int \<Rightarrow> string" where
  "substring s i = drop (nat i) s"

text \<open>\<open>s.includes(sub)\<close>.\<close>

fun includes_str :: "string \<Rightarrow> string \<Rightarrow> bool" where
  "includes_str [] sub = (sub = [])"
| "includes_str (x # xs) sub = (prefix sub (x # xs) \<or> includes_str xs sub)"

section \<open>Regular expressions\<close>

text \<open>
  The patterns of the source use literals, alternation, sequencing and the two anchors,
  all with the \<open>i\<close> flag. A match state is the rest of the input together with a flag
  telling whether the position is still the start of the input. For the \<open>i\<close> flag the
  literals of the pattern and the input are both brought to lower case before matching.
\<close>

datatype regex = Lit string | Alt "regex list" | Seq regex regex | Bol | Eol

fun lowerRegex :: "regex \<Rightarrow> regex" where
  "lowerRegex (Lit l) = Lit (toLowerCase l)"
| "lowerRegex (Alt rs) = Alt (map lowerRegex rs)"
| "lowerRegex (Seq r1 r2) = Seq (lowerRegex r1) (lowerRegex r2)"
| "lowerRegex Bol = Bol"
| "lowerRegex Eol = Eol"

fun rmatch :: "regex \<Rightarrow> bool \<times> string \<Rightarrow> (bool \<times> string) list" where
  "rmatch (Lit l) (b, s) = (if prefix l s then [(b \<and> l = [], drop (length l) s)] else [])"
| "rmatch (Alt rs) st = concat (map (\<lambda>r. rmatch r st) rs)"
| "rmatch (Seq r1 r2) st = concat (map (rmatch r2) (rmatch r1 st))"
| "rmatch Bol (b, s) = (if b then [(b, s)] else [])"
| "rmatch Eol (b, s) = (if s = [] then [(b, s)] else [])"

text \<open>\<open>pattern.test(s)\<close>: some position of the input starts a match.\<close>

fun searchFrom :: "regex \<Rightarrow> bool \<Rightarrow> string \<Rightarrow> bool" where
  "searchFrom r b [] = (rmatch r (b, []) \<noteq> [])"
| "searchFrom r b (x # xs) = (rmatch r (b, x # xs) \<noteq> [] \<or> searchFrom r False xs)"

definition test :: "regex \<Rightarrow> string \<Rightarrow> bool" where
  "test r s = searchFrom (lowerRegex r) True (toLowerCase s)"

definition alts :: "string list \<Rightarrow> regex" where
  "alts ws = Alt (map Lit ws)"

section \<open>Constants of the collector\<close>

definition MAX_FILE_SIZE :: nat where
  "MAX_FILE_SIZE = 1024 * 1024"

definition MAX_TOTAL_CODE_SIZE :: nat where
  "MAX_TOTAL_CODE_SIZE = 10 * 1024 * 1024"

definition MAX_FILES_TO_ANALYZE :: nat where
  "MAX_FILES_TO_ANALYZE = 500"

definition SKIP_EXTENSIONS :: "string set" where
  "SKIP_EXTENSIONS = set
    [''.png'', ''.jpg'', ''.jpeg'', ''.gif'', ''.svg'', ''.ico'', ''.webp'', ''.bmp'',
     ''.pdf'', ''.zip'', ''.tar'', ''.gz'', ''.rar'', ''.7z'',
     ''.exe'', ''.dll'', ''.so'', ''.dylib'', ''.bin'',
     ''.woff'', ''.woff2'', ''.ttf'', ''.eot'',
     ''.mp4'', ''.mp3'', ''.avi'', ''.mov'', ''.wmv'',
     ''.pyc'', ''.pyo'', ''.class'', ''.jar'', ''.war'',
     ''.min.js'', ''.min.css'', ''.bundle.js'',
     ''.lock'', ''.log'', ''.cache'']"

definition SKIP_DIRECTORIES :: "string set" where
  "SKIP_DIRECTORIES = set
    [''node_modules'', ''.git'', ''dist'', ''build'', ''.next'', ''out'',
     ''coverage'', ''.nyc_output'', ''.cache'', ''.vscode'', ''.idea'',
     ''vendor'', ''__pycache__'', ''.pytest_cache'', ''.mypy_cache'',
     ''target'', ''.gradle'', ''.idea'', ''venv'', ''env'', ''.venv'',
     ''bower_components'', ''.sass-cache'', ''.parcel-cache'']"

definition HIGH_PRIORITY_PATTERNS :: "regex list" where
  "HIGH_PRIORITY_PATTERNS =
    [Seq Bol (alts [''src'', ''lib'', ''app'', ''components'', ''pages'', ''routes'',
                    ''controllers'', ''services'', ''models'', ''utils'', ''helpers'']),
     Seq (Lit ''.'') (Seq (alts [''ts'', ''tsx'', ''js'', ''jsx'', ''py'', ''java'', ''go'', ''rs'',
                                 ''rb'', ''php'', ''cs'', ''cpp'', ''c'', ''h'', ''swift'', ''kt'',
                                 ''scala'']) Eol),
     Seq Bol (Seq (alts [''package.json'', ''requirements.txt'', ''pom.xml'', ''build.gradle'',
                         ''Cargo.toml'', ''go.mod'', ''Gemfile'', ''composer.json'']) Eol),
     Seq Bol (Seq (alts [''dockerfile'', ''docker-compose'', ''.env.example'', ''.gitignore'',
                         ''.eslintrc'', ''.prettierrc'']) Eol)]"

definition CONFIG_PATTERNS :: "regex list" where
  "CONFIG_PATTERNS =
    [Seq Bol (alts [''package.json'', ''tsconfig'', ''webpack'', ''vite'', ''rollup'', ''babel'',
                    ''eslint'', ''prettier'', ''jest'', ''vitest'', ''cypress'', ''playwright'']),
     Seq (Lit ''.'') (Seq (alts [''config'', ''conf'', ''ini'', ''yaml'', ''yml'', ''toml'',
                                 ''json'']) Eol),
     Seq Bol (Seq (alts [''dockerfile'', ''docker-compose'', ''.env'', ''.gitignore'', ''.npmrc'',
                         ''.nvmrc'']) Eol)]"

definition TEST_PATTERNS :: "regex list" where
  "TEST_PATTERNS =
    [Seq (alts [''test'', ''spec''])
       (Seq (Lit ''.'') (Seq (alts [''js'', ''ts'', ''jsx'', ''tsx'', ''py'', ''java'', ''go'',
                                    ''rb'']) Eol)),
     Seq (Lit ''.'') (Seq (alts [''test'', ''spec''])
       (Seq (Lit ''.'') (Seq (alts [''js'', ''ts'', ''jsx'', ''tsx'', ''py'', ''java'', ''go'',
                                    ''rb'']) Eol))),
     Seq Bol (alts [''test'', ''spec'', ''tests'', ''__tests__'', ''__spec__''])]"

definition DOC_PATTERNS :: "regex list" where
  "DOC_PATTERNS =
    [Seq Bol (alts [''readme'', ''changelog'', ''contributing'', ''license'', ''authors'',
                    ''credits'']),
     Seq (Lit ''.'') (Seq (alts [''md'', ''txt'', ''rst'', ''adoc'']) Eol)]"

section \<open>Admission filter and classification\<close>

definition shouldSkipFile :: "string \<Rightarrow> nat \<Rightarrow> bool" where
  "shouldSkipFile path sz =
     (if sz > MAX_FILE_SIZE then True
      else if list_ex (\<lambda>part. part \<in> SKIP_DIRECTORIES) (split_str CHR ''/'' (toLowerCase path))
        then True
      else if toLowerCase (substring path (lastIndexOf path CHR ''.'')) \<in> SKIP_EXTENSIONS
        then True
      else if includes_str path ''.min.'' \<or> includes_str path ''.bundle.''
              \<or> includes_str path ''.chunk.''
        then True
      else False)"

datatype priority = High | Medium | Low

definition getFilePriority :: "string \<Rightarrow> priority" where
  "getFilePriority path =
     (if list_ex (\<lambda>pattern. test pattern path) HIGH_PRIORITY_PATTERNS then High
      else if list_ex (\<lambda>pattern. test pattern path) CONFIG_PATTERNS
              \<or> list_ex (\<lambda>pattern. test pattern path) DOC_PATTERNS then Medium
      else Low)"

definition isTestFile :: "string \<Rightarrow> bool" where
  "isTestFile path = list_ex (\<lambda>pattern. test pattern path) TEST_PATTERNS"

definition isConfigFile :: "string \<Rightarrow> bool" where
  "isConfigFile path = list_ex (\<lambda>pattern. test pattern path) CONFIG_PATTERNS"

definition isDocumentationFile :: "string \<Rightarrow> bool" where
  "isDocumentationFile path = list_ex (\<lambda>pattern. test pattern path) DOC_PATTERNS"

definition detectLanguage :: "string \<Rightarrow> string option" where
  "detectLanguage path =
     map_of
       [(''.ts'', ''TypeScript''), (''.tsx'', ''TypeScript''), (''.js'', ''JavaScript''),
        (''.jsx'', ''JavaScript''), (''.py'', ''Python''), (''.java'', ''Java''), (''.go'', ''Go''),
        (''.rs'', ''Rust''), (''.rb'', ''Ruby''), (''.php'', ''PHP''), (''.cs'', ''C#''),
        (''.cpp'', ''C++''), (''.c'', ''C''), (''.swift'', ''Swift''), (''.kt'', ''Kotlin''),
        (''.scala'', ''Scala''), (''.html'', ''HTML''), (''.css'', ''CSS''), (''.scss'', ''SCSS''),
        (''.sass'', ''SASS''), (''.json'', ''JSON''), (''.yaml'', ''YAML''), (''.yml'', ''YAML''),
        (''.xml'', ''XML''), (''.md'', ''Markdown''), (''.sh'', ''Shell''), (''.sql'', ''SQL'')]
       (toLowerCase (substring path (lastIndexOf path CHR ''.'')))"

section \<open>The remote repository\<close>

text \<open>
  A collected file, as the walk pushes it onto its accumulator.
\<close>

record CodeFile =
  path :: string
  content :: string
  size' :: nat
  language :: "string option"
  isTest :: bool
  isConfig :: bool
  isDocumentation :: bool
  priority :: priority

text \<open>
  What the contents endpoint answers for a file: the request itself can throw, the status can be
  a failure, the body can lack \<open>content\<close> (also when it is the empty string), decoding
  the base64 text can throw, or it decodes to a text.
\<close>

datatype fileResponse = FetchThrows | StatusNotOk | NoContent | DecodeThrows | Decoded string

text \<open>
  An entry of a directory listing carries \<open>name\<close>, \<open>path\<close> and, for a file, its
  declared \<open>size\<close>. A file entry is paired with the answer to its content request and a
  directory entry with the answer to its listing request, so that a finite tree describes every
  response the walk can receive. \<open>ListingFailed\<close> stands for a request that throws, a
  failure status or a body that is not an array.
\<close>

datatype item =
    FileItem string string nat fileResponse
  | DirItem string string listing
  | OtherItem string string
and listing = ListingFailed | Listing "item list"

datatype request =
    RepoMeta string string
  | Readme
  | Languages
  | ListContents string
  | FileContent string
  | Commits
  | Branches
  | Pulls

section \<open>The walk\<close>

text \<open>
  \<open>fetchAllFilesRecursive\<close> with its \<open>for\<close> loop. The loop carries the two local
  variables \<open>files\<close> and \<open>totalSize\<close>; a \<open>break\<close> returns at once, a
  \<open>continue\<close> goes on with the rest. Both functions also return the requests they issue,
  in order.
\<close>

fun fetchAllFilesRecursive :: "string \<Rightarrow> listing \<Rightarrow> CodeFile list \<times> request list"
  and forItems :: "item list \<Rightarrow> CodeFile list \<Rightarrow> nat \<Rightarrow> CodeFile list \<times> request list"
where
  "fetchAllFilesRecursive p ListingFailed = ([], [ListContents p])"
| "fetchAllFilesRecursive p (Listing contents) =
     (case forItems contents [] 0 of (files, reqs) \<Rightarrow> (files, ListContents p # reqs))"
| "forItems [] files totalSize = (files, [])"
| "forItems (OtherItem name ipath # rest) files totalSize = forItems rest files totalSize"
| "forItems (DirItem name ipath sub # rest) files totalSize =
     (if toLowerCase name \<in> SKIP_DIRECTORIES then forItems rest files totalSize
      else (case fetchAllFilesRecursive ipath sub of (subFiles, reqs) \<Rightarrow>
        let files1 = files @ subFiles;
            totalSize1 = sum_list (map size' files1)
        in if length files1 \<ge> MAX_FILES_TO_ANALYZE \<or> totalSize1 \<ge> MAX_TOTAL_CODE_SIZE
           then (files1, reqs)
           else (case forItems rest files1 totalSize1 of (fs, reqs1) \<Rightarrow> (fs, reqs @ reqs1))))"
| "forItems (FileItem name ipath isize resp # rest) files totalSize =
     (if shouldSkipFile ipath isize then forItems rest files totalSize
      else if length files \<ge> MAX_FILES_TO_ANALYZE then (files, [])
      else if totalSize + isize > MAX_TOTAL_CODE_SIZE then forItems rest files totalSize
      else (case resp of
              Decoded text \<Rightarrow>
                (case forItems rest
                        (files @ [\<lparr>path = ipath, content = text, size' = isize,
                                   language = detectLanguage ipath, isTest = isTestFile ipath,
                                   isConfig = isConfigFile ipath,
                                   isDocumentation = isDocumentationFile ipath,
                                   priority = getFilePriority ipath\<rparr>])
                        (totalSize + isize) of
                   (fs, reqs) \<Rightarrow> (fs, FileContent ipath # reqs))
            | _ \<Rightarrow>
                (case forItems rest files totalSize of
                   (fs, reqs) \<Rightarrow> (fs, FileContent ipath # reqs))))"

section \<open>Collecting a repository\<close>

text \<open>
  The other endpoints read by \<open>fetchRepoData\<close>. Each of these requests sits in its own
  \<open>try\<close> block: it can throw, answer with a failure status, or deliver its payload. The
  payloads are kept as plain strings; nothing below looks inside them.
\<close>

datatype 'a outcome = Threw | Failed | Ok 'a

text \<open>
  The metadata request: it throws with a message, answers with a failure status and status
  text, or delivers the metadata, of which the walk needs \<open>default_branch\<close>.
\<close>

datatype metaResponse = MetaThrows string | MetaStatus nat string | MetaOk "string option"

record remote =
  metaResp :: metaResponse
  readmeResp :: "string outcome"
  languagesResp :: "(string \<times> nat) list outcome"
  contentsResp :: listing
  commitsResp :: "string list outcome"
  branchesResp :: "string list outcome"
  pullsResp :: "string list outcome"

record RepoMetadata =
  readmeContent :: "string option"
  languages :: "(string \<times> nat) list"
  commits :: "string list"
  branches :: "string list"
  pullRequests :: "string list"
  defaultBranch :: string
  codeFiles :: "CodeFile list"
  totalCodeSize :: nat
  filesAnalyzed :: nat
  filesSkipped :: int

definition priorityOrder :: "priority \<Rightarrow> int" where
  "priorityOrder p = (case p of High \<Rightarrow> 0 | Medium \<Rightarrow> 1 | Low \<Rightarrow> 2)"

definition orElse :: "'a outcome \<Rightarrow> 'a \<Rightarrow> 'a" where
  "orElse r d = (case r of Ok v \<Rightarrow> v | _ \<Rightarrow> d)"

text \<open>
  \<open>fetchRepoData\<close>: \<open>Inl\<close> is the thrown error with its message. The hosting service
  is a function from owner and repository name to the responses it gives.
  \<open>Array.prototype.sort\<close> is stable (ECMAScript 2019), and so is \<open>sort_key\<close>;
  \<open>slice(0, n)\<close> is \<open>take n\<close>.
  The display-only structure walk and the fields derived from it are left out: it catches its
  own failures and none of the fields below depends on it.
\<close>

definition fetchRepoData ::
  "(string \<Rightarrow> string \<Rightarrow> remote) \<Rightarrow> string \<Rightarrow> string \<Rightarrow> (string + RepoMetadata) \<times> request list"
where
  "fetchRepoData github owner repo =
     (let r = github owner repo in
      case metaResp r of
        MetaThrows msg \<Rightarrow> (Inl msg, [RepoMeta owner repo])
      | MetaStatus status statusText \<Rightarrow>
          (Inl (if status = 404 then ''Repository not found (or private).''
                else if status = 403
                  then ''GitHub API rate limit exceeded. Please try again later.''
                else ''GitHub API Error: '' @ statusText),
           [RepoMeta owner repo])
      | MetaOk default_branch \<Rightarrow>
          (case fetchAllFilesRecursive [] (contentsResp r) of (allCodeFiles, reqs) \<Rightarrow>
             let sorted = sort_key (\<lambda>f. priorityOrder (priority f)) allCodeFiles;
                 codeFiles1 = take MAX_FILES_TO_ANALYZE sorted
             in (Inr \<lparr>readmeContent = (case readmeResp r of Ok text \<Rightarrow> Some text | _ \<Rightarrow> None),
                      languages = orElse (languagesResp r) [],
                      commits = orElse (commitsResp r) [],
                      branches = orElse (branchesResp r) [],
                      pullRequests = orElse (pullsResp r) [],
                      defaultBranch =
                        (case default_branch of
                           None \<Rightarrow> ''main''
                         | Some b \<Rightarrow> if b = [] then ''main'' else b),
                      codeFiles = codeFiles1,
                      totalCodeSize = sum_list (map size' codeFiles1),
                      filesAnalyzed = length codeFiles1,
                      filesSkipped = int (length sorted) - int (length codeFiles1)\<rparr>,
                 [RepoMeta owner repo, Readme, Languages] @ reqs @ [Commits, Branches, Pulls])))"

section \<open>Parsing the repository location\<close>

text \<open>
  The \<open>URL\<close> constructor belongs to the platform, not to the repository: it is a parameter,
  \<open>None\<close> when it throws. Of the parsed URL the code reads \<open>hostname\<close> and
  \<open>pathname\<close>.
\<close>

record URL =
  hostname :: string
  pathname :: string

record RepoInfo =
  owner :: string
  repo :: string

definition parseGithubUrl :: "(string \<Rightarrow> URL option) \<Rightarrow> string \<Rightarrow> RepoInfo option" where
  "parseGithubUrl newURL url =
     (case newURL url of
        None \<Rightarrow> None
      | Some urlObj \<Rightarrow>
          if hostname urlObj \<noteq> ''github.com'' then None
          else let parts = filter (\<lambda>s. s \<noteq> []) (split_str CHR ''/'' (pathname urlObj))
               in if length parts < 2 then None
                  else Some \<lparr>owner = parts ! 0, repo = parts ! 1\<rparr>)"

text \<open>
  A fragment of the platform's parser, for concrete inputs: the scheme \<open>https\<close>, a
  non-empty host up to the first slash (lower-cased), and the rest as the path, \<open>/\<close> when
  there is none. Every other string is refused.
\<close>

definition basicURL :: "string \<Rightarrow> URL option" where
  "basicURL s =
     (if prefix ''https://'' s
      then let r = drop 8 s;
               h = takeWhile (\<lambda>c. c \<noteq> CHR ''/'') r;
               p = dropWhile (\<lambda>c. c \<noteq> CHR ''/'') r
           in if h = [] then None
              else Some \<lparr>hostname = toLowerCase h, pathname = (if p = [] then ''/'' else p)\<rparr>
      else None)"

text \<open>
  \<open>handleAnalyze\<close> of the application, up to the point where the collected data is handed
  to the analysis: the state after it, and the requests issued.
\<close>

datatype AnalysisStatus = IDLE | FETCHING_GITHUB | ANALYZING_GEMINI | COMPLETE | ERROR

record appState =
  status :: AnalysisStatus
  repoData :: "RepoMetadata option"
  error :: "string option"

definition handleAnalyze ::
  "(string \<Rightarrow> URL option) \<Rightarrow> (string \<Rightarrow> string \<Rightarrow> remote) \<Rightarrow> appState \<Rightarrow> string
     \<Rightarrow> appState \<times> request list"
where
  "handleAnalyze newURL github st url =
     (case parseGithubUrl newURL url of
        None \<Rightarrow>
          (st\<lparr>error := Some ''Invalid GitHub URL. Please use format: https://github.com/owner/repo'',
              status := IDLE\<rparr>, [])
      | Some repoInfo \<Rightarrow>
          (case fetchRepoData github (owner repoInfo) (repo repoInfo) of
             (Inl msg, reqs) \<Rightarrow>
               (st\<lparr>error := Some (if msg = [] then ''An unexpected error occurred.'' else msg),
                   status := ERROR\<rparr>, reqs)
           | (Inr data, reqs) \<Rightarrow>
               (st\<lparr>error := None, repoData := Some data, status := ANALYZING_GEMINI\<rparr>, reqs)))"

section \<open>Selection for the prompt\<close>

text \<open>
  \<open>analyzeRepository\<close> picks files from \<open>codeFiles\<close> and removes duplicates with a
  \<open>Map\<close> keyed by path: setting a key that is present replaces its value in place, a new
  key goes to the end, and \<open>values()\<close> follows that order.
\<close>

definition selectedFiles :: "CodeFile list \<Rightarrow> CodeFile list" where
  "selectedFiles cfs =
     take 50 (filter (\<lambda>f. priority f = High) cfs)
     @ take 30 (filter (\<lambda>f. priority f = Medium) cfs)
     @ take 20 (filter isConfig cfs)
     @ take 20 (filter isTest cfs)"

definition new_Map :: "('k \<times> 'v) list \<Rightarrow> ('k \<times> 'v) list" where
  "new_Map entries = foldl (\<lambda>m (k, v). AList.update k v m) [] entries"

definition uniqueFiles :: "CodeFile list \<Rightarrow> CodeFile list" where
  "uniqueFiles cfs = map snd (new_Map (map (\<lambda>f. (path f, f)) (selectedFiles cfs)))"

section \<open>Notions used to state the properties\<close>

text \<open>The file entries of a tree, with path and declared size, in listing order.\<close>

fun entriesOf :: "listing \<Rightarrow> (string \<times> nat) list"
  and entriesOfItems :: "item list \<Rightarrow> (string \<times> nat) list"
where
  "entriesOf ListingFailed = []"
| "entriesOf (Listing contents) = entriesOfItems contents"
| "entriesOfItems [] = []"
| "entriesOfItems (FileItem name ipath isize resp # rest) = (ipath, isize) # entriesOfItems rest"
| "entriesOfItems (DirItem name ipath sub # rest) = entriesOf sub @ entriesOfItems rest"
| "entriesOfItems (OtherItem name ipath # rest) = entriesOfItems rest"

text \<open>
  A collected file as the walk builds it: it passed the admission filter, and its language,
  role flags and priority are those computed from its path.
\<close>

definition collected_ok :: "CodeFile \<Rightarrow> bool" where
  "collected_ok f \<longleftrightarrow>
     \<not> shouldSkipFile (path f) (size' f)
     \<and> language f = detectLanguage (path f)
     \<and> isTest f = isTestFile (path f)
     \<and> isConfig f = isConfigFile (path f)
     \<and> isDocumentation f = isDocumentationFile (path f)
     \<and> priority f = getFilePriority (path f)"

text \<open>A content request that does not end in a decoded text.\<close>

definition failed :: "fileResponse \<Rightarrow> bool" where
  "failed resp = (case resp of Decoded text \<Rightarrow> False | _ \<Rightarrow> True)"

text \<open>
  \<open>omits l l'\<close>: the listing \<open>l'\<close> is \<open>l\<close> without one file entry, at any depth,
  whose content request fails; the accumulator of the listing that holds the entry has fewer
  files than the count ceiling when the walk arrives there, as it has whenever the request is
  issued at all.
\<close>

inductive omits :: "item list \<Rightarrow> item list \<Rightarrow> bool" where
  here: "failed resp \<Longrightarrow> length (fst (forItems xs [] 0)) < MAX_FILES_TO_ANALYZE
           \<Longrightarrow> omits (xs @ FileItem name ipath isize resp # ys) (xs @ ys)"
| inside: "omits sub sub' \<Longrightarrow>
           omits (xs @ DirItem name ipath (Listing sub) # ys) (xs @ DirItem name ipath (Listing sub') # ys)"

section \<open>Example repositories\<close>

text \<open>A service whose metadata request succeeds and whose contents endpoint serves a given tree.\<close>

definition serve :: "listing \<Rightarrow> string \<Rightarrow> string \<Rightarrow> remote" where
  "serve t own rep =
     \<lparr>metaResp = MetaOk (Some ''main''), readmeResp = Failed, languagesResp = Failed,
      contentsResp = t, commitsResp = Failed, branchesResp = Failed, pullsResp = Failed\<rparr>"

text \<open>A source file, a README and a minified bundle under \<open>dist\<close>.\<close>

definition scenarioA :: listing where
  "scenarioA = Listing
     [FileItem ''README.md'' ''README.md'' 1024 (Decoded ''# demo''),
      DirItem ''dist'' ''dist''
        (Listing [FileItem ''bundle.min.js'' ''dist/bundle.min.js'' 512000 (Decoded ''var a'')]),
      DirItem ''src'' ''src''
        (Listing [FileItem ''app.ts'' ''src/app.ts'' 2048 (Decoded ''let a'')])]"

text \<open>Ten source files \<open>f0.ts\<close> to \<open>f9.ts\<close> of one size, under a path prefix.\<close>

definition tenFiles :: "string \<Rightarrow> nat \<Rightarrow> item list" where
  "tenFiles dir sz =
     map (\<lambda>c. FileItem (''f'' @ [c] @ ''.ts'') (dir @ ''f'' @ [c] @ ''.ts'') sz (Decoded ''x''))
       ''0123456789''"

text \<open>One file of 1 MiB at the root and ten files of 1 MiB in a subdirectory.\<close>

definition nestedOver :: listing where
  "nestedOver = Listing
     [FileItem ''a.ts'' ''a.ts'' 1048576 (Decoded ''x''),
      DirItem ''pkg'' ''pkg'' (Listing (tenFiles ''pkg/'' 1048576))]"

text \<open>
  A flat listing: ten files that leave one byte of the aggregate budget, then a file of two
  bytes, then a file of one byte.
\<close>

definition nearlyFull :: "item list" where
  "nearlyFull =
     take 9 (tenFiles [] 1048576) @ [FileItem ''g.ts'' ''g.ts'' 1048575 (Decoded ''x'')]"

definition lateAdmission :: listing where
  "lateAdmission = Listing
     (nearlyFull @
      [FileItem ''two.ts'' ''two.ts'' 2 (Decoded ''x''),
       FileItem ''one.ts'' ''one.ts'' 1 (Decoded ''x'')])"

text \<open>A single file one byte over the per-file ceiling.\<close>

definition scenarioC :: listing where
  "scenarioC = Listing [FileItem ''big.ts'' ''big.ts'' 1048577 (Decoded ''x'')]"

text \<open>A listing that names the same path twice.\<close>

definition twice :: listing where
  "twice = Listing
     [FileItem ''a.ts'' ''a.ts'' 10 (Decoded ''first''),
      FileItem ''a.ts'' ''a.ts'' 10 (Decoded ''second'')]"

text \<open>A listing with a file whose content request fails, and the same listing without it.\<close>

definition flaky :: "item list" where
  "flaky =
     [FileItem ''ok.ts'' ''ok.ts'' 5 (Decoded ''x''),
      FileItem ''bad.ts'' ''bad.ts'' 5 StatusNotOk,
      FileItem ''z.md'' ''z.md'' 5 (Decoded ''y'')]"

definition steady :: "item list" where
  "steady =
     [FileItem ''ok.ts'' ''ok.ts'' 5 (Decoded ''x''),
      FileItem ''z.md'' ''z.md'' 5 (Decoded ''y'')]"

text \<open>Six hundred files \<open>f000\<close> to \<open>f599\<close> of 1 KB each in the root listing.\<close>

definition threeDigits :: "string list" where
  "threeDigits = [[a, b, c]. a \<leftarrow> ''012345'', b \<leftarrow> ''0123456789'', c \<leftarrow> ''0123456789'']"

definition flat600 :: "item list" where
  "flat600 = map (\<lambda>ds. FileItem (''f'' @ ds) (''f'' @ ds) 1024 (Decoded ''x'')) threeDigits"

section \<open>Properties of the string primitives\<close>

lemma split_str_notin: "c \<notin> set a \<Longrightarrow> split_str c a = [a]"
  by (induction a) auto

lemma split_str_append: "c \<notin> set a \<Longrightarrow> split_str c (a @ c # b) = a # split_str c b"
  by (induction a) auto

section \<open>Properties of the walk\<close>

lemma walk_collected_ok:
  "\<forall>f \<in> set (fst (fetchAllFilesRecursive p l)). collected_ok f"
  "(\<forall>f \<in> set files. collected_ok f) \<Longrightarrow>
     \<forall>f \<in> set (fst (forItems items files tot)). collected_ok f"
proof (induction p l and items files tot rule: fetchAllFilesRecursive_forItems.induct)
  case (1 p)
  then show ?case by simp
next
  case (2 p contents)
  then show ?case by (simp split: prod.splits)
next
  case (3 files totalSize)
  then show ?case by simp
next
  case (4 name ipath rest files totalSize)
  then show ?case by simp
next
  case (5 name ipath sub rest files totalSize)
  show ?case
  proof (cases "toLowerCase name \<in> SKIP_DIRECTORIES")
    case True
    with "5.IH"(1) [OF True "5.prems"] show ?thesis by simp
  next
    case False
    obtain subFiles reqs where s: "fetchAllFilesRecursive ipath sub = (subFiles, reqs)"
      by (cases "fetchAllFilesRecursive ipath sub")
    from "5.IH"(2) [OF False] s have sub: "\<forall>f \<in> set subFiles. collected_ok f" by simp
    with "5.prems" have all: "\<forall>f \<in> set (files @ subFiles). collected_ok f" by auto
    show ?thesis
    proof (cases "MAX_FILES_TO_ANALYZE \<le> length (files @ subFiles)
        \<or> MAX_TOTAL_CODE_SIZE \<le> sum_list (map size' (files @ subFiles))")
      case True
      with False s all show ?thesis by (simp add: Let_def)
    next
      case b: False
      from "5.IH"(3) [OF False s [symmetric] refl refl b] all
      have "\<forall>f \<in> set (fst (forItems rest (files @ subFiles)
               (sum_list (map size' (files @ subFiles))))). collected_ok f" by blast
      with False s b show ?thesis by (simp add: Let_def split: prod.splits)
    qed
  qed
next
  case (6 name ipath isize resp rest files totalSize)
  show ?case
  proof (cases "shouldSkipFile ipath isize")
    case True
    with "6.IH"(1) [OF True "6.prems"] show ?thesis by simp
  next
    case ns: False
    show ?thesis
    proof (cases "MAX_FILES_TO_ANALYZE \<le> length files")
      case True
      with ns "6.prems" show ?thesis by simp
    next
      case nc: False
      show ?thesis
      proof (cases "MAX_TOTAL_CODE_SIZE < totalSize + isize")
        case True
        with ns nc "6.IH"(2) [OF ns nc True "6.prems"] show ?thesis by simp
      next
        case nz: False
        show ?thesis
        proof (cases resp)
          case (Decoded body)
          have "\<forall>f \<in> set (files @ [\<lparr>path = ipath, content = body, size' = isize,
                     language = detectLanguage ipath, isTest = isTestFile ipath,
                     isConfig = isConfigFile ipath,
                     isDocumentation = isDocumentationFile ipath,
                     priority = getFilePriority ipath\<rparr>]). collected_ok f"
            using "6.prems" ns by (auto simp: collected_ok_def)
          from "6.IH"(7) [OF ns nc nz Decoded this] ns nc nz Decoded
          show ?thesis by (simp split: prod.splits)
        next
          case FetchThrows
          with ns nc nz "6.IH"(3) [OF ns nc nz FetchThrows "6.prems"] show ?thesis
            by (simp split: prod.splits)
        next
          case StatusNotOk
          with ns nc nz "6.IH"(4) [OF ns nc nz StatusNotOk "6.prems"] show ?thesis
            by (simp split: prod.splits)
        next
          case NoContent
          with ns nc nz "6.IH"(5) [OF ns nc nz NoContent "6.prems"] show ?thesis
            by (simp split: prod.splits)
        next
          case DecodeThrows
          with ns nc nz "6.IH"(6) [OF ns nc nz DecodeThrows "6.prems"] show ?thesis
            by (simp split: prod.splits)
        qed
      qed
    qed
  qed
qed

lemma forItems_Other:
  "forItems (OtherItem name ipath # rest) files tot = forItems rest files tot"
  by simp

lemma forItems_Dir_skipped:
  "toLowerCase name \<in> SKIP_DIRECTORIES \<Longrightarrow>
     forItems (DirItem name ipath sub # rest) files tot = forItems rest files tot"
  by simp

lemma fst_forItems_Dir:
  "toLowerCase name \<notin> SKIP_DIRECTORIES \<Longrightarrow>
     fst (forItems (DirItem name ipath sub # rest) files tot) =
       (let files1 = files @ fst (fetchAllFilesRecursive ipath sub);
            totalSize1 = sum_list (map size' files1)
        in if length files1 \<ge> MAX_FILES_TO_ANALYZE \<or> totalSize1 \<ge> MAX_TOTAL_CODE_SIZE
           then files1 else fst (forItems rest files1 totalSize1))"
  by (simp add: Let_def split: prod.splits)

lemma fst_forItems_File:
  "fst (forItems (FileItem name ipath isize resp # rest) files tot) =
     (if shouldSkipFile ipath isize then fst (forItems rest files tot)
      else if length files \<ge> MAX_FILES_TO_ANALYZE then files
      else if tot + isize > MAX_TOTAL_CODE_SIZE then fst (forItems rest files tot)
      else (case resp of
              Decoded body \<Rightarrow>
                fst (forItems rest
                        (files @ [\<lparr>path = ipath, content = body, size' = isize,
                                   language = detectLanguage ipath, isTest = isTestFile ipath,
                                   isConfig = isConfigFile ipath,
                                   isDocumentation = isDocumentationFile ipath,
                                   priority = getFilePriority ipath\<rparr>])
                        (tot + isize))
            | _ \<Rightarrow> fst (forItems rest files tot)))"
  by (simp split: prod.splits fileResponse.splits)

lemma fst_forItems_File_failed:
  "failed resp \<Longrightarrow> length files < MAX_FILES_TO_ANALYZE \<Longrightarrow>
     fst (forItems (FileItem name ipath isize resp # rest) files tot) = fst (forItems rest files tot)"
  by (simp add: failed_def split: prod.splits fileResponse.splits)

lemma forItems_append:
  "(\<forall>ys. fst (forItems (xs @ ys) files tot) = fst (forItems xs files tot))
   \<or> (\<exists>t'. \<forall>ys. fst (forItems (xs @ ys) files tot)
                 = fst (forItems ys (fst (forItems xs files tot)) t'))"
proof (induction xs arbitrary: files tot)
  case Nil
  have "\<forall>ys. fst (forItems ([] @ ys) files tot) = fst (forItems ys (fst (forItems [] files tot)) tot)"
    by simp
  then show ?case by blast
next
  case (Cons x xs)
  show ?case
  proof (cases x)
    case (OtherItem name ipath)
    with Cons [of files tot] show ?thesis by simp
  next
    case (DirItem name ipath sub)
    show ?thesis
    proof (cases "toLowerCase name \<in> SKIP_DIRECTORIES")
      case True
      with DirItem Cons [of files tot] show ?thesis by simp
    next
      case False
      let ?f1 = "files @ fst (fetchAllFilesRecursive ipath sub)"
      let ?t1 = "sum_list (map size' ?f1)"
      show ?thesis
      proof (cases "length ?f1 \<ge> MAX_FILES_TO_ANALYZE \<or> ?t1 \<ge> MAX_TOTAL_CODE_SIZE")
        case True
        with False DirItem have "\<forall>ys. fst (forItems ((x # xs) @ ys) files tot) = ?f1"
          by (simp add: fst_forItems_Dir Let_def del: forItems.simps)
        moreover from True False DirItem have "fst (forItems (x # xs) files tot) = ?f1"
          by (simp add: fst_forItems_Dir Let_def del: forItems.simps)
        ultimately show ?thesis by simp
      next
        case b: False
        with False DirItem have
          "\<forall>ys. fst (forItems ((x # xs) @ ys) files tot) = fst (forItems (xs @ ys) ?f1 ?t1)"
          by (simp add: fst_forItems_Dir Let_def del: forItems.simps)
        moreover from b False DirItem have
          "fst (forItems (x # xs) files tot) = fst (forItems xs ?f1 ?t1)"
          by (simp add: fst_forItems_Dir Let_def del: forItems.simps)
        ultimately show ?thesis using Cons [of ?f1 ?t1] by simp
      qed
    qed
  next
    case (FileItem name ipath isize resp)
    show ?thesis
    proof (cases "shouldSkipFile ipath isize")
      case True
      with FileItem Cons [of files tot] show ?thesis
        by (simp add: fst_forItems_File del: forItems.simps)
    next
      case ns: False
      show ?thesis
      proof (cases "length files \<ge> MAX_FILES_TO_ANALYZE")
        case True
        with ns FileItem show ?thesis by (simp add: fst_forItems_File del: forItems.simps)
      next
        case nc: False
        show ?thesis
        proof (cases "tot + isize > MAX_TOTAL_CODE_SIZE")
          case True
          with ns nc FileItem Cons [of files tot] show ?thesis
            by (simp add: fst_forItems_File del: forItems.simps)
        next
          case nz: False
          show ?thesis
          proof (cases resp)
            case (Decoded body)
            let ?f1 = "files @ [\<lparr>path = ipath, content = body, size' = isize,
                                   language = detectLanguage ipath, isTest = isTestFile ipath,
                                   isConfig = isConfigFile ipath,
                                   isDocumentation = isDocumentationFile ipath,
                                   priority = getFilePriority ipath\<rparr>]"
            from Decoded ns nc nz FileItem Cons [of ?f1 "tot + isize"] show ?thesis
              by (simp add: fst_forItems_File del: forItems.simps)
          qed (use ns nc nz FileItem Cons [of files tot] in
                \<open>simp_all add: fst_forItems_File del: forItems.simps\<close>)
        qed
      qed
    qed
  qed
qed

lemma fst_fetchAll_Listing:
  "fst (fetchAllFilesRecursive p (Listing contents)) = fst (forItems contents [] 0)"
  by (simp split: prod.splits)

lemma omits_same_files:
  "omits l l' \<Longrightarrow> fst (forItems l [] 0) = fst (forItems l' [] 0)"
proof (induction rule: omits.induct)
  case (here resp xs name ipath isize ys)
  let ?x = "FileItem name ipath isize resp"
  from forItems_append [of xs "[]" 0] show ?case
  proof
    assume a: "\<forall>ys. fst (forItems (xs @ ys) [] 0) = fst (forItems xs [] 0)"
    then have "fst (forItems (xs @ ?x # ys) [] 0) = fst (forItems xs [] 0)"
      and "fst (forItems (xs @ ys) [] 0) = fst (forItems xs [] 0)"
      by blast+
    then show ?thesis by simp
  next
    assume "\<exists>t'. \<forall>ys. fst (forItems (xs @ ys) [] 0) = fst (forItems ys (fst (forItems xs [] 0)) t')"
    then obtain t' where
      t: "\<And>ys. fst (forItems (xs @ ys) [] 0) = fst (forItems ys (fst (forItems xs [] 0)) t')"
      by blast
    have "fst (forItems (xs @ ?x # ys) [] 0) = fst (forItems (?x # ys) (fst (forItems xs [] 0)) t')"
      by (rule t)
    also have "\<dots> = fst (forItems ys (fst (forItems xs [] 0)) t')"
      using here by (rule fst_forItems_File_failed)
    also have "\<dots> = fst (forItems (xs @ ys) [] 0)"
      by (rule t [symmetric])
    finally show ?thesis .
  qed
next
  case (inside sub sub' xs name ipath ys)
  let ?d = "DirItem name ipath (Listing sub)"
  let ?d' = "DirItem name ipath (Listing sub')"
  have step: "fst (forItems (?d # ys) fs t) = fst (forItems (?d' # ys) fs t)" for fs t
  proof (cases "toLowerCase name \<in> SKIP_DIRECTORIES")
    case True
    then show ?thesis by simp
  next
    case False
    then show ?thesis
      by (simp only: fst_forItems_Dir [OF False] fst_fetchAll_Listing inside.IH)
  qed
  from forItems_append [of xs "[]" 0] show ?case
  proof
    assume a: "\<forall>ys. fst (forItems (xs @ ys) [] 0) = fst (forItems xs [] 0)"
    then have "fst (forItems (xs @ ?d # ys) [] 0) = fst (forItems xs [] 0)"
      and "fst (forItems (xs @ ?d' # ys) [] 0) = fst (forItems xs [] 0)"
      by blast+
    then show ?thesis by simp
  next
    assume "\<exists>t'. \<forall>ys. fst (forItems (xs @ ys) [] 0) = fst (forItems ys (fst (forItems xs [] 0)) t')"
    then obtain t' where
      t: "\<And>ys. fst (forItems (xs @ ys) [] 0) = fst (forItems ys (fst (forItems xs [] 0)) t')"
      by blast
    show ?thesis by (simp only: t step)
  qed
qed

lemma count_stops_at_file:
  assumes "MAX_FILES_TO_ANALYZE \<le> length (fst (forItems xs [] 0))"
    and "\<not> shouldSkipFile ipath isize"
  shows "fst (forItems (xs @ FileItem name ipath isize resp # ys) [] 0) = fst (forItems xs [] 0)"
  using forItems_append [of xs "[]" 0]
proof
  assume "\<forall>ys. fst (forItems (xs @ ys) [] 0) = fst (forItems xs [] 0)"
  then show ?thesis by blast
next
  assume "\<exists>t'. \<forall>ys. fst (forItems (xs @ ys) [] 0) = fst (forItems ys (fst (forItems xs [] 0)) t')"
  then obtain t' where
    t: "\<And>ys. fst (forItems (xs @ ys) [] 0) = fst (forItems ys (fst (forItems xs [] 0)) t')"
    by blast
  show ?thesis using assms by (simp only: t fst_forItems_File if_True if_False)
qed

lemma ceiling_stops_after_dir:
  assumes "toLowerCase name \<notin> SKIP_DIRECTORIES"
    and "MAX_FILES_TO_ANALYZE \<le> length (fst (forItems (xs @ [DirItem name ipath sub]) [] 0))
         \<or> MAX_TOTAL_CODE_SIZE
              \<le> sum_list (map size' (fst (forItems (xs @ [DirItem name ipath sub]) [] 0)))"
  shows "fst (forItems (xs @ DirItem name ipath sub # ys) [] 0)
           = fst (forItems (xs @ [DirItem name ipath sub]) [] 0)"
  using forItems_append [of xs "[]" 0]
proof
  assume "\<forall>ys. fst (forItems (xs @ ys) [] 0) = fst (forItems xs [] 0)"
  then show ?thesis by simp
next
  assume "\<exists>t'. \<forall>ys. fst (forItems (xs @ ys) [] 0) = fst (forItems ys (fst (forItems xs [] 0)) t')"
  then obtain t' where
    t: "\<And>ys. fst (forItems (xs @ ys) [] 0) = fst (forItems ys (fst (forItems xs [] 0)) t')"
    by blast
  let ?fs = "fst (forItems xs [] 0)"
  let ?f1 = "?fs @ fst (fetchAllFilesRecursive ipath sub)"
  have one: "fst (forItems [DirItem name ipath sub] ?fs t') = ?f1"
    using assms(1) by (simp add: Let_def split: prod.splits)
  with assms(2) have "MAX_FILES_TO_ANALYZE \<le> length ?f1
      \<or> MAX_TOTAL_CODE_SIZE \<le> sum_list (map size' ?f1)"
    by (simp only: t)
  then have "fst (forItems (DirItem name ipath sub # ys) ?fs t') = ?f1"
    using assms(1) by (simp add: fst_forItems_Dir Let_def del: forItems.simps)
  with one show ?thesis by (simp only: t)
qed

lemma requests_are_entries:
  "FileContent q \<in> set (snd (fetchAllFilesRecursive p l)) \<Longrightarrow>
     \<exists>s. (q, s) \<in> set (entriesOf l) \<and> \<not> shouldSkipFile q s"
  "FileContent q \<in> set (snd (forItems items files tot)) \<Longrightarrow>
     \<exists>s. (q, s) \<in> set (entriesOfItems items) \<and> \<not> shouldSkipFile q s"
proof (induction p l and items files tot rule: fetchAllFilesRecursive_forItems.induct)
  case (1 p)
  then show ?case by simp
next
  case (2 p contents)
  then show ?case by (auto split: prod.splits)
next
  case (3 files totalSize)
  then show ?case by simp
next
  case (4 name ipath rest files totalSize)
  then show ?case by simp
next
  case (5 name ipath sub rest files totalSize)
  show ?case
  proof (cases "toLowerCase name \<in> SKIP_DIRECTORIES")
    case True
    with "5.IH"(1) "5.prems" show ?thesis by auto
  next
    case False
    obtain subFiles reqs where s: "fetchAllFilesRecursive ipath sub = (subFiles, reqs)"
      by (cases "fetchAllFilesRecursive ipath sub")
    have sub: "FileContent q \<in> set reqs \<Longrightarrow>
        \<exists>s. (q, s) \<in> set (entriesOf sub) \<and> \<not> shouldSkipFile q s"
      using "5.IH"(2) [OF False] s by simp
    show ?thesis
    proof (cases "MAX_FILES_TO_ANALYZE \<le> length (files @ subFiles)
        \<or> MAX_TOTAL_CODE_SIZE \<le> sum_list (map size' (files @ subFiles))")
      case True
      with False s "5.prems" have "FileContent q \<in> set reqs" by (simp add: Let_def)
      with sub show ?thesis by auto
    next
      case b: False
      obtain fs reqs1 where r: "forItems rest (files @ subFiles)
          (sum_list (map size' (files @ subFiles))) = (fs, reqs1)"
        by (cases "forItems rest (files @ subFiles) (sum_list (map size' (files @ subFiles)))")
      have rest: "FileContent q \<in> set reqs1 \<Longrightarrow>
          \<exists>s. (q, s) \<in> set (entriesOfItems rest) \<and> \<not> shouldSkipFile q s"
        using "5.IH"(3) [OF False s [symmetric] refl refl b] r by simp
      from False s b r "5.prems" have "FileContent q \<in> set reqs \<or> FileContent q \<in> set reqs1"
        by (simp add: Let_def)
      with sub rest show ?thesis by auto
    qed
  qed
next
  case (6 name ipath isize resp rest files totalSize)
  show ?case
  proof (cases "shouldSkipFile ipath isize")
    case True
    with "6.IH"(1) "6.prems" show ?thesis by auto
  next
    case ns: False
    show ?thesis
    proof (cases "MAX_FILES_TO_ANALYZE \<le> length files")
      case True
      with ns "6.prems" show ?thesis by simp
    next
      case nc: False
      show ?thesis
      proof (cases "MAX_TOTAL_CODE_SIZE < totalSize + isize")
        case True
        with ns nc "6.IH"(2) "6.prems" show ?thesis by auto
      next
        case nz: False
        show ?thesis
        proof (cases resp)
          case (Decoded body)
          let ?f1 = "files @ [\<lparr>path = ipath, content = body, size' = isize,
                     language = detectLanguage ipath, isTest = isTestFile ipath,
                     isConfig = isConfigFile ipath,
                     isDocumentation = isDocumentationFile ipath,
                     priority = getFilePriority ipath\<rparr>]"
          from ns nc nz Decoded "6.prems"
          have "q = ipath \<or> FileContent q \<in> set (snd (forItems rest ?f1 (totalSize + isize)))"
            by (auto split: prod.splits)
          with "6.IH"(7) [OF ns nc nz Decoded] ns show ?thesis by auto
        next
          case FetchThrows
          with ns nc nz "6.prems"
          have "q = ipath \<or> FileContent q \<in> set (snd (forItems rest files totalSize))"
            by (auto split: prod.splits)
          with "6.IH"(3) [OF ns nc nz FetchThrows] ns show ?thesis by auto
        next
          case StatusNotOk
          with ns nc nz "6.prems"
          have "q = ipath \<or> FileContent q \<in> set (snd (forItems rest files totalSize))"
            by (auto split: prod.splits)
          with "6.IH"(4) [OF ns nc nz StatusNotOk] ns show ?thesis by auto
        next
          case NoContent
          with ns nc nz "6.prems"
          have "q = ipath \<or> FileContent q \<in> set (snd (forItems rest files totalSize))"
            by (auto split: prod.splits)
          with "6.IH"(5) [OF ns nc nz NoContent] ns show ?thesis by auto
        next
          case DecodeThrows
          with ns nc nz "6.prems"
          have "q = ipath \<or> FileContent q \<in> set (snd (forItems rest files totalSize))"
            by (auto split: prod.splits)
          with "6.IH"(6) [OF ns nc nz DecodeThrows] ns show ?thesis by auto
        qed
      qed
    qed
  qed
qed

lemma sum_list_insort_key:
  "sum_list (map f (insort_key k x xs)) = (f x :: nat) + sum_list (map f xs)"
  by (induction xs) auto

lemma sum_list_sort_key:
  "sum_list (map f (sort_key k xs)) = (sum_list (map f xs) :: nat)"
  by (induction xs) (auto simp: sum_list_insort_key)

lemma sum_list_take_le:
  "sum_list (map f (take n xs)) \<le> (sum_list (map f xs) :: nat)"
proof -
  have "sum_list (map f xs) = sum_list (map f (take n xs)) + sum_list (map f (drop n xs))"
    by (metis append_take_drop_id map_append sum_list_append)
  then show ?thesis by simp
qed

lemma filter_take_prefix: "prefix (filter P (take n xs)) (filter P xs)"
proof -
  have "filter P xs = filter P (take n xs) @ filter P (drop n xs)"
    by (metis append_take_drop_id filter_append)
  then show ?thesis by (simp add: prefix_def)
qed

lemma flat_total_bounded:
  assumes "\<forall>it \<in> set items. \<forall>name ipath sub. it \<noteq> DirItem name ipath sub"
    and "sum_list (map size' files) = tot" and "tot \<le> MAX_TOTAL_CODE_SIZE"
  shows "sum_list (map size' (fst (forItems items files tot))) \<le> MAX_TOTAL_CODE_SIZE"
  using assms
proof (induction items arbitrary: files tot)
  case Nil
  then show ?case by simp
next
  case (Cons x xs)
  then have ih: "\<And>fs t. sum_list (map size' fs) = t \<Longrightarrow> t \<le> MAX_TOTAL_CODE_SIZE \<Longrightarrow>
      sum_list (map size' (fst (forItems xs fs t))) \<le> MAX_TOTAL_CODE_SIZE"
    by simp
  show ?case
  proof (cases x)
    case (FileItem name ipath isize resp)
    have same: "sum_list (map size' (fst (forItems xs files tot))) \<le> MAX_TOTAL_CODE_SIZE"
      using ih Cons.prems(2,3) by blast
    have more: "sum_list (map size' (fst (forItems xs
          (files @ [\<lparr>path = ipath, content = body, size' = isize,
                     language = detectLanguage ipath, isTest = isTestFile ipath,
                     isConfig = isConfigFile ipath,
                     isDocumentation = isDocumentationFile ipath,
                     priority = getFilePriority ipath\<rparr>]) (tot + isize))))
        \<le> MAX_TOTAL_CODE_SIZE"
      if "\<not> MAX_TOTAL_CODE_SIZE < tot + isize" for body
      by (rule ih) (use that Cons.prems(2) in simp_all)
    show ?thesis
      unfolding FileItem fst_forItems_File
      using same more Cons.prems(2,3) by (simp split: fileResponse.splits)
  next
    case (DirItem name ipath sub)
    with Cons.prems(1) show ?thesis by auto
  next
    case (OtherItem name ipath)
    have "sum_list (map size' (fst (forItems xs files tot))) \<le> MAX_TOTAL_CODE_SIZE"
      using ih Cons.prems(2,3) by blast
    with OtherItem show ?thesis by simp
  qed
qed

section \<open>Parsing the repository location\<close>

lemma segments_first_two:
  assumes "o1 \<noteq> []" "r1 \<noteq> []" "CHR ''/'' \<notin> set o1" "CHR ''/'' \<notin> set r1"
  shows "\<exists>more. filter (\<lambda>s. s \<noteq> [])
           (split_str CHR ''/'' (CHR ''/'' # o1 @ CHR ''/'' # r1 @ concat (map ((#) CHR ''/'') extra)))
         = o1 # r1 # more"
proof (cases extra)
  case Nil
  then show ?thesis using assms by (simp add: split_str_append split_str_notin)
next
  case (Cons e es)
  then show ?thesis using assms by (simp add: split_str_append)
qed

lemma basicURL_onlyowner:
  "basicURL ''https://github.com/onlyowner''
     = Some \<lparr>hostname = ''github.com'', pathname = ''/onlyowner''\<rparr>"
  by code_simp

lemma basicURL_repo:
  "basicURL ''https://github.com/owner/repo''
     = Some \<lparr>hostname = ''github.com'', pathname = ''/owner/repo''\<rparr>"
  by code_simp

lemma basicURL_tree:
  "basicURL ''https://github.com/owner/repo/tree/main''
     = Some \<lparr>hostname = ''github.com'', pathname = ''/owner/repo/tree/main''\<rparr>"
  by code_simp

lemma segments_repo:
  "filter (\<lambda>s. s \<noteq> []) (split_str CHR ''/'' ''/owner/repo'') = [''owner'', ''repo'']"
  by code_simp

text \<open>
  Claim C7. \<open>parseGithubUrl\<close> returns null exactly when the string is no URL at all, or
  its host is not \<open>github.com\<close>, or its path has fewer than two non-empty segments; in
  every other case it returns the pair made of the first two non-empty segments. After a null
  result \<open>handleAnalyze\<close> issues no request. A URL with the host \<open>github.com\<close> and
  the path \<open>/onlyowner\<close> parses to null.
\<close>

theorem parseGithubUrl_null:
  "(parseGithubUrl newURL url = None \<longleftrightarrow>
      (case newURL url of
         None \<Rightarrow> True
       | Some u \<Rightarrow> hostname u \<noteq> ''github.com''
           \<or> length (filter (\<lambda>s. s \<noteq> []) (split_str CHR ''/'' (pathname u))) < 2))
   \<and> (parseGithubUrl newURL url \<noteq> None \<longrightarrow>
        (\<exists>u a b more. newURL url = Some u
           \<and> filter (\<lambda>s. s \<noteq> []) (split_str CHR ''/'' (pathname u)) = a # b # more
           \<and> parseGithubUrl newURL url = Some \<lparr>owner = a, repo = b\<rparr>))
   \<and> (parseGithubUrl newURL url = None \<longrightarrow> snd (handleAnalyze newURL github st url) = [])
   \<and> (newURL ''https://github.com/onlyowner''
         = Some \<lparr>hostname = ''github.com'', pathname = ''/onlyowner''\<rparr> \<longrightarrow>
        parseGithubUrl newURL ''https://github.com/onlyowner'' = None)"
proof (intro conjI impI)
  show "parseGithubUrl newURL url = None \<longleftrightarrow>
      (case newURL url of
         None \<Rightarrow> True
       | Some u \<Rightarrow> hostname u \<noteq> ''github.com''
           \<or> length (filter (\<lambda>s. s \<noteq> []) (split_str CHR ''/'' (pathname u))) < 2)"
    by (simp add: parseGithubUrl_def Let_def split: option.splits)
next
  assume a: "parseGithubUrl newURL url \<noteq> None"
  then obtain u where u: "newURL url = Some u"
    by (auto simp: parseGithubUrl_def split: option.splits)
  let ?parts = "filter (\<lambda>s. s \<noteq> []) (split_str CHR ''/'' (pathname u))"
  from a u have h: "hostname u = ''github.com''" and l: "\<not> length ?parts < 2"
    by (auto simp: parseGithubUrl_def Let_def split: if_splits)
  from l obtain a b more where p: "?parts = a # b # more"
    by (cases ?parts; cases "tl ?parts") auto
  have "parseGithubUrl newURL url = Some \<lparr>owner = a, repo = b\<rparr>"
    using u h p by (simp add: parseGithubUrl_def Let_def)
  with u p show "\<exists>u a b more. newURL url = Some u
           \<and> filter (\<lambda>s. s \<noteq> []) (split_str CHR ''/'' (pathname u)) = a # b # more
           \<and> parseGithubUrl newURL url = Some \<lparr>owner = a, repo = b\<rparr>"
    by blast
next
  assume "parseGithubUrl newURL url = None"
  then show "snd (handleAnalyze newURL github st url) = []"
    by (simp add: handleAnalyze_def)
next
  assume "newURL ''https://github.com/onlyowner''
         = Some \<lparr>hostname = ''github.com'', pathname = ''/onlyowner''\<rparr>"
  then show "parseGithubUrl newURL ''https://github.com/onlyowner'' = None"
    by (simp add: parseGithubUrl_def Let_def)
qed

theorem parseGithubUrl_null_witness:
  "parseGithubUrl basicURL ''https://github.com/onlyowner'' = None
   \<and> snd (handleAnalyze basicURL (serve scenarioA)
             \<lparr>status = IDLE, repoData = None, error = None\<rparr> ''https://github.com/onlyowner'') = []
   \<and> parseGithubUrl basicURL ''https://github.com/owner/repo''
       = Some \<lparr>owner = ''owner'', repo = ''repo''\<rparr>"
proof -
  note t1 = parseGithubUrl_null [of basicURL "''https://github.com/onlyowner''" "serve scenarioA"
      "\<lparr>status = IDLE, repoData = None, error = None\<rparr>"]
  note t2 = parseGithubUrl_null [of basicURL "''https://github.com/owner/repo''" "serve scenarioA"
      "\<lparr>status = IDLE, repoData = None, error = None\<rparr>"]
  have n: "parseGithubUrl basicURL ''https://github.com/onlyowner'' = None"
    using t1 basicURL_onlyowner by blast
  have s: "parseGithubUrl basicURL ''https://github.com/owner/repo'' \<noteq> None"
    using t2 basicURL_repo by simp
  from t2 s obtain u a b more where
    "basicURL ''https://github.com/owner/repo'' = Some u"
    "filter (\<lambda>s. s \<noteq> []) (split_str CHR ''/'' (pathname u)) = a # b # more"
    "parseGithubUrl basicURL ''https://github.com/owner/repo'' = Some \<lparr>owner = a, repo = b\<rparr>"
    by blast
  then have "parseGithubUrl basicURL ''https://github.com/owner/repo''
       = Some \<lparr>owner = ''owner'', repo = ''repo''\<rparr>"
    using basicURL_repo segments_repo by auto
  with n t1 show ?thesis by blast
qed

text \<open>
  Claim C10. Segments after the first two are ignored: for a URL on \<open>github.com\<close> whose
  path is \<open>/owner/repo\<close> followed by any further segments, the result is the pair of the
  first two segments, the same as for the URL whose path is \<open>/owner/repo\<close> alone.
\<close>

theorem parseGithubUrl_extra_segments:
  assumes "o1 \<noteq> []" and "r1 \<noteq> []" and "CHR ''/'' \<notin> set o1" and "CHR ''/'' \<notin> set r1"
    and "newURL url = Some \<lparr>hostname = ''github.com'',
           pathname = CHR ''/'' # o1 @ CHR ''/'' # r1 @ concat (map ((#) CHR ''/'') extra)\<rparr>"
    and "newURL url0 = Some \<lparr>hostname = ''github.com'', pathname = CHR ''/'' # o1 @ CHR ''/'' # r1\<rparr>"
  shows "parseGithubUrl newURL url = Some \<lparr>owner = o1, repo = r1\<rparr>
       \<and> parseGithubUrl newURL url = parseGithubUrl newURL url0"
proof -
  from segments_first_two [OF assms(1-4), of extra] obtain more where
    m: "filter (\<lambda>s. s \<noteq> [])
           (split_str CHR ''/'' (CHR ''/'' # o1 @ CHR ''/'' # r1 @ concat (map ((#) CHR ''/'') extra)))
         = o1 # r1 # more" by blast
  from segments_first_two [OF assms(1-4), of "[]"] obtain more0 where
    m0: "filter (\<lambda>s. s \<noteq> []) (split_str CHR ''/'' (CHR ''/'' # o1 @ CHR ''/'' # r1)) = o1 # r1 # more0"
    by auto
  have a: "parseGithubUrl newURL url = Some \<lparr>owner = o1, repo = r1\<rparr>"
    unfolding parseGithubUrl_def using assms(5) m by (simp add: Let_def)
  have b: "parseGithubUrl newURL url0 = Some \<lparr>owner = o1, repo = r1\<rparr>"
    unfolding parseGithubUrl_def using assms(6) m0 by (simp add: Let_def)
  from a b show ?thesis by simp
qed

theorem parseGithubUrl_extra_segments_witness:
  "parseGithubUrl basicURL ''https://github.com/owner/repo/tree/main''
     = Some \<lparr>owner = ''owner'', repo = ''repo''\<rparr>
   \<and> parseGithubUrl basicURL ''https://github.com/owner/repo/tree/main''
     = parseGithubUrl basicURL ''https://github.com/owner/repo''"
  using parseGithubUrl_extra_segments [of "''owner''" "''repo''" basicURL
      "''https://github.com/owner/repo/tree/main''" "[''tree'', ''main'']"
      "''https://github.com/owner/repo''"]
    basicURL_tree basicURL_repo
  by auto

section \<open>The collected file list\<close>

lemma lowerChar_slash: "lowerChar c = CHR ''/'' \<longleftrightarrow> c = CHR ''/''"
  by (simp add: lowerChar_def)

lemma split_str_lower:
  "split_str CHR ''/'' (toLowerCase s) = map toLowerCase (split_str CHR ''/'' s)"
  unfolding toLowerCase_def
  by (induction s) (auto simp: lowerChar_slash split: list.splits)

lemma fetchRepoData_Inr:
  assumes "fst (fetchRepoData g ow rp) = Inr res"
  shows "codeFiles res = take MAX_FILES_TO_ANALYZE (sort_key (\<lambda>f. priorityOrder (priority f))
            (fst (fetchAllFilesRecursive [] (contentsResp (g ow rp)))))"
    and "totalCodeSize res = sum_list (map size' (codeFiles res))"
    and "filesAnalyzed res = length (codeFiles res)"
    and "filesSkipped res = int (length (fst (fetchAllFilesRecursive [] (contentsResp (g ow rp)))))
            - int (length (codeFiles res))"
  using assms
  by (auto simp: fetchRepoData_def Let_def split: metaResponse.splits prod.splits)

lemma fetchRepoData_MetaOk:
  "metaResp (g ow rp) = MetaOk b \<Longrightarrow> \<exists>res. fst (fetchRepoData g ow rp) = Inr res"
  by (simp add: fetchRepoData_def Let_def split: prod.splits)

lemma fetchRepoData_serve: "\<exists>res. fst (fetchRepoData (serve t) ow rp) = Inr res"
  by (rule fetchRepoData_MetaOk [of _ _ _ "Some ''main''"]) (simp add: serve_def)

lemma codeFiles_subset:
  assumes "fst (fetchRepoData g ow rp) = Inr res"
  shows "set (codeFiles res) \<subseteq> set (fst (fetchAllFilesRecursive [] (contentsResp (g ow rp))))"
proof -
  have "set (take n (sort_key k xs)) \<subseteq> set xs" for n k and xs :: "CodeFile list"
    using set_take_subset [of n "sort_key k xs"] by simp
  then show ?thesis unfolding fetchRepoData_Inr(1) [OF assms] .
qed

text \<open>
  Claim C4. If some segment of a path, brought to lower case, is an entry of the directory
  skip-list, the admission filter rejects the path whatever its size and extension, and no
  collected file of any repository carries that path.
\<close>

theorem skip_listed_segment_never_collected:
  assumes "seg \<in> set (split_str CHR ''/'' p)"
    and "toLowerCase seg \<in> SKIP_DIRECTORIES"
    and "fst (fetchRepoData g ow rp) = Inr res"
  shows "shouldSkipFile p sz \<and> p \<notin> set (map path (codeFiles res))"
proof -
  have "toLowerCase seg \<in> set (split_str CHR ''/'' (toLowerCase p))"
    using assms(1) by (simp add: split_str_lower)
  with assms(2) have ex: "list_ex (\<lambda>part. part \<in> SKIP_DIRECTORIES) (split_str CHR ''/'' (toLowerCase p))"
    unfolding list_ex_iff by blast
  then have skip: "shouldSkipFile p s" for s
    by (simp add: shouldSkipFile_def)
  have "p \<notin> set (map path (codeFiles res))"
  proof
    assume "p \<in> set (map path (codeFiles res))"
    then obtain f where f: "f \<in> set (codeFiles res)" and p: "path f = p" by auto
    from f codeFiles_subset [OF assms(3)]
    have "f \<in> set (fst (fetchAllFilesRecursive [] (contentsResp (g ow rp))))" by blast
    with walk_collected_ok(1) have "collected_ok f" by blast
    then have "\<not> shouldSkipFile (path f) (size' f)" by (simp add: collected_ok_def)
    with p skip show False by simp
  qed
  with skip show ?thesis by simp
qed

lemma segment_example:
  "''Node_Modules'' \<in> set (split_str CHR ''/'' ''lib/Node_Modules/x.ts'')
   \<and> toLowerCase ''Node_Modules'' \<in> SKIP_DIRECTORIES"
  by code_simp

theorem skip_listed_segment_never_collected_witness:
  "''Node_Modules'' \<in> set (split_str CHR ''/'' ''lib/Node_Modules/x.ts'')
   \<and> toLowerCase ''Node_Modules'' \<in> SKIP_DIRECTORIES
   \<and> (\<exists>res. fst (fetchRepoData (serve scenarioA) ''o'' ''r'') = Inr res
        \<and> shouldSkipFile ''lib/Node_Modules/x.ts'' 1
        \<and> ''lib/Node_Modules/x.ts'' \<notin> set (map path (codeFiles res)))"
proof -
  obtain res where r: "fst (fetchRepoData (serve scenarioA) ''o'' ''r'') = Inr res"
    using fetchRepoData_serve by blast
  from segment_example have a: "''Node_Modules'' \<in> set (split_str CHR ''/'' ''lib/Node_Modules/x.ts'')"
    and b: "toLowerCase ''Node_Modules'' \<in> SKIP_DIRECTORIES" by blast+
  from skip_listed_segment_never_collected [OF a b r, of 1] r a b show ?thesis by blast
qed

lemma priority_of_order: "priorityOrder a = priorityOrder b \<longleftrightarrow> a = b"
  by (cases a; cases b) (simp_all add: priorityOrder_def)

text \<open>
  Claim C9. The returned list is sorted by priority tier, high before medium before low, and
  the sort is stable: for each tier, the files of that tier appear in the returned list in the
  order in which the walk discovered them (they form an initial part of the discovered files
  of that tier).
\<close>

theorem sorted_by_priority_stable:
  assumes "fst (fetchRepoData g ow rp) = Inr res"
  shows "sorted (map (\<lambda>f. priorityOrder (priority f)) (codeFiles res))
       \<and> priorityOrder High < priorityOrder Medium \<and> priorityOrder Medium < priorityOrder Low
       \<and> prefix (filter (\<lambda>f. priority f = k) (codeFiles res))
            (filter (\<lambda>f. priority f = k)
               (fst (fetchAllFilesRecursive [] (contentsResp (g ow rp)))))"
proof -
  let ?all = "fst (fetchAllFilesRecursive [] (contentsResp (g ow rp)))"
  let ?key = "\<lambda>f. priorityOrder (priority f)"
  have cf: "codeFiles res = take MAX_FILES_TO_ANALYZE (sort_key ?key ?all)"
    by (rule fetchRepoData_Inr(1) [OF assms])
  have "sorted (map ?key (sort_key ?key ?all))" by (rule sorted_sort_key)
  then have "sorted (take MAX_FILES_TO_ANALYZE (map ?key (sort_key ?key ?all)))"
    by (rule sorted_wrt_take)
  then have s: "sorted (map ?key (codeFiles res))" by (simp add: cf take_map)
  have eq: "(\<lambda>f. priority f = k) = (\<lambda>f. ?key f = priorityOrder k)"
    by (simp add: priority_of_order)
  have "filter (\<lambda>f. priority f = k) (sort_key ?key ?all) = filter (\<lambda>f. priority f = k) ?all"
    unfolding eq by (rule sort_key_stable)
  then have st: "prefix (filter (\<lambda>f. priority f = k) (codeFiles res))
      (filter (\<lambda>f. priority f = k) ?all)"
    using filter_take_prefix [of "\<lambda>f. priority f = k" MAX_FILES_TO_ANALYZE "sort_key ?key ?all"]
    by (simp add: cf)
  from s st show ?thesis by (simp add: priorityOrder_def)
qed

theorem sorted_by_priority_stable_witness:
  "\<exists>res. fst (fetchRepoData (serve scenarioA) ''o'' ''r'') = Inr res
     \<and> sorted (map (\<lambda>f. priorityOrder (priority f)) (codeFiles res))
     \<and> prefix (filter (\<lambda>f. priority f = High) (codeFiles res))
          (filter (\<lambda>f. priority f = High)
             (fst (fetchAllFilesRecursive [] (contentsResp (serve scenarioA ''o'' ''r'')))))"
proof -
  obtain res where r: "fst (fetchRepoData (serve scenarioA) ''o'' ''r'') = Inr res"
    using fetchRepoData_serve by blast
  from sorted_by_priority_stable [OF r, of High] r show ?thesis by blast
qed

lemma not_skipped_examples:
  "\<not> shouldSkipFile ''ok.ts'' 5" "\<not> shouldSkipFile ''z.md'' 5" "\<not> shouldSkipFile ''bad.ts'' 5"
  "\<not> shouldSkipFile ''a.ts'' 10"
  by (simp_all add: shouldSkipFile_def MAX_FILE_SIZE_def SKIP_DIRECTORIES_def SKIP_EXTENSIONS_def
      toLowerCase_def lowerChar_def substring_def)

lemma oversized_skipped: "MAX_FILE_SIZE < sz \<Longrightarrow> shouldSkipFile p sz"
  by (simp add: shouldSkipFile_def)

lemma not_skipped_size: "\<not> shouldSkipFile p sz \<Longrightarrow> sz \<le> MAX_FILE_SIZE"
  by (rule ccontr) (simp add: oversized_skipped)

lemma snd_fetchRepoData:
  "FileContent q \<in> set (snd (fetchRepoData g ow rp)) \<Longrightarrow>
     FileContent q \<in> set (snd (fetchAllFilesRecursive [] (contentsResp (g ow rp))))"
  by (auto simp: fetchRepoData_def Let_def split: metaResponse.splits prod.splits)

lemma scenarioC_requests:
  "snd (fetchRepoData (serve scenarioC) ''o'' ''r'')
     = [RepoMeta ''o'' ''r'', Readme, Languages, ListContents [], Commits, Branches, Pulls]"
  by (simp add: fetchRepoData_def serve_def scenarioC_def shouldSkipFile_def MAX_FILE_SIZE_def)

lemma scenarioC_files:
  "map_sum id codeFiles (fst (fetchRepoData (serve scenarioC) ''o'' ''r'')) = Inr []"
  by (simp add: fetchRepoData_def serve_def scenarioC_def shouldSkipFile_def MAX_FILE_SIZE_def)

text \<open>
  Claim C6. The admission filter rejects every file whose declared size exceeds 1 MiB, in
  particular one of 1 MiB + 1 byte; every content request the collection issues is for a file
  entry of the tree whose declared size is at most 1 MiB; and for the repository that holds
  only a file of 1 MiB + 1 byte no content request is issued and no file is collected.
\<close>

theorem oversized_never_fetched:
  "(MAX_FILE_SIZE < sz \<longrightarrow> shouldSkipFile p sz)
   \<and> shouldSkipFile p (1024 * 1024 + 1)
   \<and> (FileContent q \<in> set (snd (fetchRepoData g ow rp)) \<longrightarrow>
        (\<exists>s. (q, s) \<in> set (entriesOf (contentsResp (g ow rp))) \<and> s \<le> MAX_FILE_SIZE))
   \<and> entriesOf scenarioC = [(''big.ts'', 1024 * 1024 + 1)]
   \<and> FileContent ''big.ts'' \<notin> set (snd (fetchRepoData (serve scenarioC) ''o'' ''r''))
   \<and> map_sum id codeFiles (fst (fetchRepoData (serve scenarioC) ''o'' ''r'')) = Inr []"
proof (intro conjI impI)
  show "MAX_FILE_SIZE < sz \<Longrightarrow> shouldSkipFile p sz" by (rule oversized_skipped)
  show "shouldSkipFile p (1024 * 1024 + 1)" by (simp add: shouldSkipFile_def MAX_FILE_SIZE_def)
  show "\<exists>s. (q, s) \<in> set (entriesOf (contentsResp (g ow rp))) \<and> s \<le> MAX_FILE_SIZE"
    if "FileContent q \<in> set (snd (fetchRepoData g ow rp))"
    using requests_are_entries(1) [OF snd_fetchRepoData [OF that]] not_skipped_size by blast
  show "entriesOf scenarioC = [(''big.ts'', 1024 * 1024 + 1)]" by (simp add: scenarioC_def)
  show "FileContent ''big.ts'' \<notin> set (snd (fetchRepoData (serve scenarioC) ''o'' ''r''))"
    by (simp add: scenarioC_requests)
  show "map_sum id codeFiles (fst (fetchRepoData (serve scenarioC) ''o'' ''r'')) = Inr []"
    by (rule scenarioC_files)
qed

lemma steady_requests:
  "snd (fetchRepoData (serve (Listing steady)) ''o'' ''r'')
     = [RepoMeta ''o'' ''r'', Readme, Languages, ListContents [], FileContent ''ok.ts'',
        FileContent ''z.md'', Commits, Branches, Pulls]"
  by (simp add: fetchRepoData_def serve_def steady_def not_skipped_examples
      MAX_FILES_TO_ANALYZE_def MAX_TOTAL_CODE_SIZE_def)

theorem oversized_never_fetched_witness:
  "MAX_FILE_SIZE < 1048577 \<and> shouldSkipFile ''big.ts'' 1048577
   \<and> FileContent ''ok.ts'' \<in> set (snd (fetchRepoData (serve (Listing steady)) ''o'' ''r''))
   \<and> (\<exists>s. (''ok.ts'', s) \<in> set (entriesOf (contentsResp (serve (Listing steady) ''o'' ''r'')))
         \<and> s \<le> MAX_FILE_SIZE)"
proof -
  have a: "MAX_FILE_SIZE < 1048577" by (simp add: MAX_FILE_SIZE_def)
  have b: "FileContent ''ok.ts'' \<in> set (snd (fetchRepoData (serve (Listing steady)) ''o'' ''r''))"
    by (simp add: steady_requests)
  from oversized_never_fetched [of 1048577 "''big.ts''" "''ok.ts''" "serve (Listing steady)" "''o''" "''r''"]
    a b show ?thesis by blast
qed

lemma fetchRepoData_contents_only:
  assumes "g' ow rp = (g ow rp)\<lparr>contentsResp := t'\<rparr>"
    and "fst (fetchAllFilesRecursive [] t') = fst (fetchAllFilesRecursive [] (contentsResp (g ow rp)))"
  shows "fst (fetchRepoData g' ow rp) = fst (fetchRepoData g ow rp)"
  using assms
  by (auto simp: fetchRepoData_def Let_def split: metaResponse.splits prod.splits)

text \<open>
  Claim C8. A file whose content request fails is simply left out: the walk returns the same
  files as on the tree without that entry, at any depth, and so does the collection. The
  collection ends in a thrown error exactly when the metadata request does not succeed,
  whatever the other requests answer.
\<close>

theorem file_failure_only_omits:
  "(omits l l' \<longrightarrow>
      fst (fetchAllFilesRecursive p (Listing l)) = fst (fetchAllFilesRecursive p (Listing l'))
      \<and> (contentsResp (g ow rp) = Listing l \<longrightarrow>
           fst (fetchRepoData (\<lambda>a b. (g a b)\<lparr>contentsResp := Listing l'\<rparr>) ow rp)
             = fst (fetchRepoData g ow rp)))
   \<and> ((\<exists>e. fst (fetchRepoData g ow rp) = Inl e) \<longleftrightarrow> (\<forall>b. metaResp (g ow rp) \<noteq> MetaOk b))"
proof (intro conjI impI)
  assume o: "omits l l'"
  then have eq: "fst (forItems l [] 0) = fst (forItems l' [] 0)" by (rule omits_same_files)
  then show "fst (fetchAllFilesRecursive p (Listing l)) = fst (fetchAllFilesRecursive p (Listing l'))"
    by (simp only: fst_fetchAll_Listing)
  assume c: "contentsResp (g ow rp) = Listing l"
  show "fst (fetchRepoData (\<lambda>a b. (g a b)\<lparr>contentsResp := Listing l'\<rparr>) ow rp)
             = fst (fetchRepoData g ow rp)"
  proof (rule fetchRepoData_contents_only [where t' = "Listing l'"])
    show "(g ow rp)\<lparr>contentsResp := Listing l'\<rparr> = (g ow rp)\<lparr>contentsResp := Listing l'\<rparr>" ..
    show "fst (fetchAllFilesRecursive [] (Listing l'))
        = fst (fetchAllFilesRecursive [] (contentsResp (g ow rp)))"
      by (simp only: c fst_fetchAll_Listing eq)
  qed
next
  show "(\<exists>e. fst (fetchRepoData g ow rp) = Inl e) \<longleftrightarrow> (\<forall>b. metaResp (g ow rp) \<noteq> MetaOk b)"
    by (cases "metaResp (g ow rp)")
       (auto simp: fetchRepoData_def Let_def split: prod.splits)
qed

lemma omits_flaky: "omits flaky steady"
proof -
  have "failed StatusNotOk" by (simp add: failed_def)
  moreover have "length (fst (forItems [FileItem ''ok.ts'' ''ok.ts'' 5 (Decoded ''x'')] [] 0))
      < MAX_FILES_TO_ANALYZE"
    by (simp add: not_skipped_examples MAX_FILES_TO_ANALYZE_def MAX_TOTAL_CODE_SIZE_def)
  ultimately have "omits ([FileItem ''ok.ts'' ''ok.ts'' 5 (Decoded ''x'')]
      @ FileItem ''bad.ts'' ''bad.ts'' 5 StatusNotOk # [FileItem ''z.md'' ''z.md'' 5 (Decoded ''y'')])
      ([FileItem ''ok.ts'' ''ok.ts'' 5 (Decoded ''x'')] @ [FileItem ''z.md'' ''z.md'' 5 (Decoded ''y'')])"
    by (rule omits.here)
  then show ?thesis by (simp add: flaky_def steady_def)
qed

theorem file_failure_only_omits_witness:
  "omits flaky steady
   \<and> contentsResp (serve (Listing flaky) ''o'' ''r'') = Listing flaky
   \<and> fst (fetchAllFilesRecursive [] (Listing flaky)) = fst (fetchAllFilesRecursive [] (Listing steady))
   \<and> fst (fetchRepoData (\<lambda>a b. (serve (Listing flaky) a b)\<lparr>contentsResp := Listing steady\<rparr>) ''o'' ''r'')
       = fst (fetchRepoData (serve (Listing flaky)) ''o'' ''r'')"
proof -
  have c: "contentsResp (serve (Listing flaky) ''o'' ''r'') = Listing flaky"
    by (simp add: serve_def)
  from file_failure_only_omits [of flaky steady "[]" "serve (Listing flaky)" "''o''" "''r''"]
    omits_flaky c show ?thesis by blast
qed

lemma update_entries: "set (AList.update k v al) \<subseteq> insert (k, v) (set al)"
  by (induction al) auto

lemma new_Map_fold:
  "distinct (map fst m) \<Longrightarrow>
     distinct (map fst (foldl (\<lambda>m (k, v). AList.update k v m) m es))
     \<and> set (foldl (\<lambda>m (k, v). AList.update k v m) m es) \<subseteq> set m \<union> set es
     \<and> map_of (foldl (\<lambda>m (k, v). AList.update k v m) m es) = map_of m ++ map_of (rev es)"
proof (induction es arbitrary: m)
  case Nil
  then show ?case by simp
next
  case (Cons e es)
  obtain k v where e: "e = (k, v)" by (cases e)
  from Cons.prems have d: "distinct (map fst (AList.update k v m))"
    by (rule distinct_update)
  let ?f = "\<lambda>m (k, v). AList.update k v m"
  from Cons.IH [OF d] have d': "distinct (map fst (foldl ?f (AList.update k v m) es))"
    and s': "set (foldl ?f (AList.update k v m) es) \<subseteq> set (AList.update k v m) \<union> set es"
    and m': "map_of (foldl ?f (AList.update k v m) es)
        = map_of (AList.update k v m) ++ map_of (rev es)"
    by blast+
  have "map_of (AList.update k v m) ++ map_of (rev es) = map_of m ++ map_of (rev (e # es))"
  proof -
    have "map_of (AList.update k v m) = map_of m ++ [k \<mapsto> v]"
      by (simp add: update_conv')
    then show ?thesis by (simp add: e)
  qed
  with m' have "map_of (foldl ?f m (e # es)) = map_of m ++ map_of (rev (e # es))"
    by (simp add: e)
  moreover from s' update_entries [of k v m]
  have "set (foldl ?f m (e # es)) \<subseteq> set m \<union> set (e # es)"
    by (auto simp: e)
  moreover from d' have "distinct (map fst (foldl ?f m (e # es)))"
    by (simp add: e)
  ultimately show ?case by blast
qed

lemma new_Map_props:
  "distinct (map fst (new_Map es))" "set (new_Map es) \<subseteq> set es"
  "map_of (new_Map es) = map_of (rev es)"
  using new_Map_fold [of "[]" es] by (simp_all add: new_Map_def)

lemma rebuild_entries:
  "\<forall>e \<in> set xs. fst e = h (snd e) \<Longrightarrow> map (\<lambda>e. (h (snd e), snd e)) xs = xs"
  by (induction xs) auto

lemma uniqueFiles_entries:
  "map (\<lambda>f. (path f, f)) (uniqueFiles cfs) = new_Map (map (\<lambda>f. (path f, f)) (selectedFiles cfs))"
proof -
  let ?es = "map (\<lambda>f. (path f, f)) (selectedFiles cfs)"
  have "\<forall>e \<in> set (new_Map ?es). fst e = path (snd e)"
    using new_Map_props(2) [of ?es] by auto
  then have "map (\<lambda>e. (path (snd e), snd e)) (new_Map ?es) = new_Map ?es"
    by (rule rebuild_entries)
  then show ?thesis by (simp add: uniqueFiles_def comp_def)
qed

text \<open>
  Claim C3, as stated, fails: \<open>fetchRepoData\<close> sorts and truncates but never removes
  duplicates. When the listing names the path \<open>a.ts\<close> twice, both collected files are
  in the returned list.
\<close>

theorem final_list_keeps_both_counterexample:
  "map_sum id (map path \<circ> codeFiles) (fst (fetchRepoData (serve twice) ''o'' ''r''))
     = Inr [''a.ts'', ''a.ts'']"
proof -
  obtain res where r: "fst (fetchRepoData (serve twice) ''o'' ''r'') = Inr res"
    using fetchRepoData_serve by blast
  have w: "map path (fst (fetchAllFilesRecursive [] (contentsResp (serve twice ''o'' ''r''))))
      = [''a.ts'', ''a.ts'']"
    by (simp add: serve_def twice_def not_skipped_examples MAX_FILES_TO_ANALYZE_def
        MAX_TOTAL_CODE_SIZE_def)
  let ?all = "fst (fetchAllFilesRecursive [] (contentsResp (serve twice ''o'' ''r'')))"
  have "set (map path (codeFiles res)) \<subseteq> {''a.ts''}"
    using codeFiles_subset [OF r] w by (metis (no_types, lifting) image_mono list.set(1,2) insert_absorb2 set_map)
  moreover have "length (codeFiles res) = 2"
    using arg_cong [OF w, where f = length]
    by (simp add: fetchRepoData_Inr(1) [OF r] MAX_FILES_TO_ANALYZE_def)
  ultimately have "map path (codeFiles res) = [''a.ts'', ''a.ts'']"
    by (cases "codeFiles res"; cases "tl (codeFiles res)") auto
  with r show ?thesis by simp
qed

text \<open>
  Claim C3, amended. The returned list holds a path at most as often as the walk admitted it,
  so at most once when it was admitted once; nothing is removed. Removal of duplicates by
  path happens later, in the selection for the prompt: \<open>uniqueFiles\<close> holds each path
  at most once, and the file kept for a path is the last one selected with that path.
\<close>

theorem dedup_only_for_the_prompt:
  "(fst (fetchRepoData g ow rp) = Inr res \<longrightarrow>
      length (filter (\<lambda>f. path f = p) (codeFiles res))
        \<le> length (filter (\<lambda>f. path f = p)
             (fst (fetchAllFilesRecursive [] (contentsResp (g ow rp))))))
   \<and> distinct (map path (uniqueFiles cfs))
   \<and> map_of (map (\<lambda>f. (path f, f)) (uniqueFiles cfs))
       = map_of (rev (map (\<lambda>f. (path f, f)) (selectedFiles cfs)))"
proof (intro conjI impI)
  assume r: "fst (fetchRepoData g ow rp) = Inr res"
  let ?all = "fst (fetchAllFilesRecursive [] (contentsResp (g ow rp)))"
  let ?key = "\<lambda>f. priorityOrder (priority f)"
  have "length (filter (\<lambda>f. path f = p) (codeFiles res))
      \<le> length (filter (\<lambda>f. path f = p) (sort_key ?key ?all))"
    unfolding fetchRepoData_Inr(1) [OF r]
    using filter_take_prefix [of "\<lambda>f. path f = p" MAX_FILES_TO_ANALYZE "sort_key ?key ?all"]
    by (rule prefix_length_le)
  also have "\<dots> = length (filter (\<lambda>f. path f = p) ?all)"
    by (simp add: filter_sort)
  finally show "length (filter (\<lambda>f. path f = p) (codeFiles res))
      \<le> length (filter (\<lambda>f. path f = p) ?all)" .
next
  have "distinct (map fst (map (\<lambda>f. (path f, f)) (uniqueFiles cfs)))"
    unfolding uniqueFiles_entries by (rule new_Map_props(1))
  then show "distinct (map path (uniqueFiles cfs))" by (simp add: comp_def)
next
  show "map_of (map (\<lambda>f. (path f, f)) (uniqueFiles cfs))
       = map_of (rev (map (\<lambda>f. (path f, f)) (selectedFiles cfs)))"
    unfolding uniqueFiles_entries by (rule new_Map_props(3))
qed

theorem dedup_only_for_the_prompt_witness:
  "\<exists>res. fst (fetchRepoData (serve twice) ''o'' ''r'') = Inr res
     \<and> length (filter (\<lambda>f. path f = ''a.ts'') (codeFiles res))
        \<le> length (filter (\<lambda>f. path f = ''a.ts'')
             (fst (fetchAllFilesRecursive [] (contentsResp (serve twice ''o'' ''r'')))))"
proof -
  obtain res where r: "fst (fetchRepoData (serve twice) ''o'' ''r'') = Inr res"
    using fetchRepoData_serve by blast
  from dedup_only_for_the_prompt [of "serve twice" "''o''" "''r''" res "''a.ts''"] r
  show ?thesis by blast
qed

section \<open>The ceilings\<close>

lemma lastIndexOf_absent: "c \<notin> set s \<Longrightarrow> lastIndexOf s c = - 1"
  by (induction s) (auto simp: Let_def)

lemma includes_str_set: "includes_str s sub \<Longrightarrow> set sub \<subseteq> set s"
proof (induction s)
  case Nil
  then show ?case by simp
next
  case (Cons x xs)
  from Cons.prems have "prefix sub (x # xs) \<or> includes_str xs sub" by simp
  then show ?case
  proof
    assume "prefix sub (x # xs)"
    then show ?thesis by (rule set_mono_prefix)
  next
    assume "includes_str xs sub"
    with Cons.IH show ?thesis by auto
  qed
qed

lemma lowerChar_other: "c \<notin> set ''ABCDEFGHIJKLMNOPQRSTUVWXYZ'' \<Longrightarrow> lowerChar c = c"
proof -
  assume a: "c \<notin> set ''ABCDEFGHIJKLMNOPQRSTUVWXYZ''"
  have "map fst (zip ''ABCDEFGHIJKLMNOPQRSTUVWXYZ'' ''abcdefghijklmnopqrstuvwxyz'')
      = ''ABCDEFGHIJKLMNOPQRSTUVWXYZ''"
    by (rule map_fst_zip) simp
  then have "fst ` set (zip ''ABCDEFGHIJKLMNOPQRSTUVWXYZ'' ''abcdefghijklmnopqrstuvwxyz'')
      = set ''ABCDEFGHIJKLMNOPQRSTUVWXYZ''"
    by (metis set_map)
  with a have "map_of (zip ''ABCDEFGHIJKLMNOPQRSTUVWXYZ'' ''abcdefghijklmnopqrstuvwxyz'') c = None"
    by (simp only: map_of_eq_None_iff not_False_eq_True)
  then show ?thesis by (simp only: lowerChar_def option.case)
qed

lemma digits_not_capitals:
  "c \<in> set ''0123456789'' \<Longrightarrow> c \<notin> set ''ABCDEFGHIJKLMNOPQRSTUVWXYZ''"
  by auto

lemma lowerChar_digit: "c \<in> set ''0123456789'' \<Longrightarrow> lowerChar c = c"
  by (rule lowerChar_other) (rule digits_not_capitals)

lemma toLowerCase_digits: "set ds \<subseteq> set ''0123456789'' \<Longrightarrow> toLowerCase ds = ds"
  unfolding toLowerCase_def by (rule map_idI) (use lowerChar_digit in blast)

lemma digits_not_skipped:
  assumes "set ds \<subseteq> set ''0123456789''" and "sz \<le> MAX_FILE_SIZE"
  shows "\<not> shouldSkipFile (CHR ''f'' # ds) sz"
proof -
  let ?p = "CHR ''f'' # ds"
  have low: "toLowerCase ?p = ?p"
  proof -
    have "lowerChar CHR ''f'' = CHR ''f''" by (rule lowerChar_other) simp
    with toLowerCase_digits [OF assms(1)] show ?thesis by (simp add: toLowerCase_def)
  qed
  have noslash: "CHR ''/'' \<notin> set ?p" and nodot: "CHR ''.'' \<notin> set ?p"
    using assms(1) by auto
  have seg: "split_str CHR ''/'' ?p = [?p]" by (rule split_str_notin [OF noslash])
  have ext: "substring ?p (lastIndexOf ?p CHR ''.'') = ?p"
    by (simp only: lastIndexOf_absent [OF nodot]) (simp add: substring_def)
  have d: "?p \<notin> SKIP_DIRECTORIES" by (simp add: SKIP_DIRECTORIES_def)
  have e: "?p \<notin> SKIP_EXTENSIONS" by (simp add: SKIP_EXTENSIONS_def)
  have i: "\<not> includes_str ?p sub" if "CHR ''.'' \<in> set sub" for sub
    using includes_str_set [of ?p sub] nodot that by blast
  have i3: "\<not> includes_str ?p ''.min.''" "\<not> includes_str ?p ''.bundle.''"
    "\<not> includes_str ?p ''.chunk.''"
    by (rule i, simp)+
  show ?thesis
    unfolding shouldSkipFile_def low seg ext
    using assms(2) d e i3 by simp
qed

lemma threeDigits_length: "length threeDigits = 600"
  by code_simp

lemma comprehension_chars:
  "ds \<in> set [[a, b, c]. a \<leftarrow> A, b \<leftarrow> B, c \<leftarrow> C] \<Longrightarrow> set ds \<subseteq> set A \<union> set B \<union> set C"
  by auto

lemma threeDigits_digits: "ds \<in> set threeDigits \<Longrightarrow> set ds \<subseteq> set ''0123456789''"
proof -
  assume "ds \<in> set threeDigits"
  then have "set ds \<subseteq> set ''012345'' \<union> set ''0123456789'' \<union> set ''0123456789''"
    unfolding threeDigits_def by (rule comprehension_chars)
  moreover have "set ''012345'' \<subseteq> set ''0123456789''" by simp
  ultimately show ?thesis by blast
qed

lemma flat600_eligible:
  "\<forall>it \<in> set flat600. \<exists>n p b. it = FileItem n p 1024 (Decoded b) \<and> \<not> shouldSkipFile p 1024"
proof
  fix it assume "it \<in> set flat600"
  then obtain ds where ds: "ds \<in> set threeDigits"
    and it: "it = FileItem (''f'' @ ds) (''f'' @ ds) 1024 (Decoded ''x'')"
    by (auto simp: flat600_def)
  have "\<not> shouldSkipFile (CHR ''f'' # ds) 1024"
    by (rule digits_not_skipped [OF threeDigits_digits [OF ds]]) (simp add: MAX_FILE_SIZE_def)
  with it show "\<exists>n p b. it = FileItem n p 1024 (Decoded b) \<and> \<not> shouldSkipFile p 1024"
    by simp
qed

lemma flat_eligible_length:
  assumes "\<forall>it \<in> set items. \<exists>n p b. it = FileItem n p sz (Decoded b) \<and> \<not> shouldSkipFile p sz"
    and "tot + sz * length items \<le> MAX_TOTAL_CODE_SIZE"
  shows "length (fst (forItems items files tot)) =
           (if MAX_FILES_TO_ANALYZE \<le> length files then length files
            else min MAX_FILES_TO_ANALYZE (length files + length items))"
  using assms
proof (induction items arbitrary: files tot)
  case Nil
  then show ?case by simp
next
  case (Cons x xs)
  from Cons.prems(1) obtain n p b where x: "x = FileItem n p sz (Decoded b)"
    and ns: "\<not> shouldSkipFile p sz" by auto
  show ?case
  proof (cases "MAX_FILES_TO_ANALYZE \<le> length files")
    case True
    with ns show ?thesis unfolding x fst_forItems_File by simp
  next
    case False
    from Cons.prems(2) have fit: "\<not> MAX_TOTAL_CODE_SIZE < tot + sz" by simp
    let ?f = "\<lparr>path = p, content = b, size' = sz, language = detectLanguage p,
                isTest = isTestFile p, isConfig = isConfigFile p,
                isDocumentation = isDocumentationFile p, priority = getFilePriority p\<rparr>"
    have "length (fst (forItems xs (files @ [?f]) (tot + sz))) =
           (if MAX_FILES_TO_ANALYZE \<le> length (files @ [?f]) then length (files @ [?f])
            else min MAX_FILES_TO_ANALYZE (length (files @ [?f]) + length xs))"
      by (rule Cons.IH) (use Cons.prems in \<open>simp_all add: algebra_simps\<close>)
    with False ns fit show ?thesis unfolding x fst_forItems_File by auto
  qed
qed

lemma flat600_walk: "length (fst (fetchAllFilesRecursive [] (Listing flat600))) = 500"
proof -
  have "length flat600 = 600" by (simp add: flat600_def threeDigits_length)
  then show ?thesis
    unfolding fst_fetchAll_Listing
    using flat_eligible_length [OF flat600_eligible, of 0 "[]"]
    by (simp add: MAX_TOTAL_CODE_SIZE_def MAX_FILES_TO_ANALYZE_def)
qed

lemma length_codeFiles:
  assumes "fst (fetchRepoData g ow rp) = Inr res"
  shows "length (codeFiles res)
     = min MAX_FILES_TO_ANALYZE (length (fst (fetchAllFilesRecursive [] (contentsResp (g ow rp)))))"
  by (simp add: fetchRepoData_Inr(1) [OF assms] min.commute)

text \<open>
  Claim C2, as stated, fails for the repository that holds 600 eligible files of 1 KB in its
  root listing: the walk stops at the count ceiling, so 500 files are collected and none is
  counted as skipped.
\<close>

theorem flat600_skipped_counterexample:
  "length flat600 = 600
   \<and> map_sum id filesAnalyzed (fst (fetchRepoData (serve (Listing flat600)) ''o'' ''r'')) = Inr 500
   \<and> map_sum id filesSkipped (fst (fetchRepoData (serve (Listing flat600)) ''o'' ''r'')) = Inr 0"
proof -
  obtain res where r: "fst (fetchRepoData (serve (Listing flat600)) ''o'' ''r'') = Inr res"
    using fetchRepoData_serve by blast
  have c: "contentsResp (serve (Listing flat600) ''o'' ''r'') = Listing flat600"
    by (simp add: serve_def)
  have l: "length (codeFiles res) = 500"
    using length_codeFiles [OF r] flat600_walk by (simp add: c MAX_FILES_TO_ANALYZE_def)
  have "filesAnalyzed res = 500" and "filesSkipped res = 0"
    using fetchRepoData_Inr(3,4) [OF r] l flat600_walk by (simp_all add: c)
  moreover have "length flat600 = 600" by (simp add: flat600_def threeDigits_length)
  ultimately show ?thesis by (simp add: r)
qed

text \<open>
  Claim C2, amended. When the root listing holds 600 eligible files of 1 KB each, exactly 500
  files are collected and \<open>filesSkipped\<close> is 0. In general \<open>filesSkipped\<close> is the number of
  files the walk returned minus the number analyzed, and the number analyzed is the smaller of
  500 and the number the walk returned.
\<close>

theorem skipped_is_walk_surplus:
  "(fst (fetchRepoData g ow rp) = Inr res \<longrightarrow>
      filesSkipped res
        = int (length (fst (fetchAllFilesRecursive [] (contentsResp (g ow rp)))))
          - int (filesAnalyzed res)
      \<and> filesAnalyzed res = length (codeFiles res)
      \<and> filesAnalyzed res
        = min MAX_FILES_TO_ANALYZE
            (length (fst (fetchAllFilesRecursive [] (contentsResp (g ow rp))))))
   \<and> (fst (fetchRepoData g ow rp) = Inr res \<longrightarrow> contentsResp (g ow rp) = Listing items \<longrightarrow>
      length items = 600 \<longrightarrow>
      (\<forall>it \<in> set items. \<exists>n p b. it = FileItem n p 1024 (Decoded b) \<and> \<not> shouldSkipFile p 1024) \<longrightarrow>
      length (codeFiles res) = 500 \<and> filesSkipped res = 0)"
proof (intro conjI impI)
  assume r: "fst (fetchRepoData g ow rp) = Inr res"
  let ?all = "fst (fetchAllFilesRecursive [] (contentsResp (g ow rp)))"
  show "filesSkipped res = int (length ?all) - int (filesAnalyzed res)"
    by (simp add: fetchRepoData_Inr(3,4) [OF r])
  show "filesAnalyzed res = length (codeFiles res)"
    by (rule fetchRepoData_Inr(3) [OF r])
  show "filesAnalyzed res = min MAX_FILES_TO_ANALYZE (length ?all)"
    by (simp add: fetchRepoData_Inr(3) [OF r] length_codeFiles [OF r])
next
  assume r: "fst (fetchRepoData g ow rp) = Inr res"
    and c: "contentsResp (g ow rp) = Listing items"
    and n: "length items = 600"
    and e: "\<forall>it \<in> set items. \<exists>n p b. it = FileItem n p 1024 (Decoded b) \<and> \<not> shouldSkipFile p 1024"
  have w: "length (fst (fetchAllFilesRecursive [] (Listing items))) = 500"
    unfolding fst_fetchAll_Listing
    using flat_eligible_length [OF e, of 0 "[]"] n
    by (simp add: MAX_TOTAL_CODE_SIZE_def MAX_FILES_TO_ANALYZE_def)
  have l: "length (codeFiles res) = 500"
    using length_codeFiles [OF r] w by (simp add: c MAX_FILES_TO_ANALYZE_def)
  moreover have "filesSkipped res = 0"
    using fetchRepoData_Inr(4) [OF r] l w by (simp add: c)
  ultimately show "length (codeFiles res) = 500" and "filesSkipped res = 0" by blast+
qed

theorem skipped_is_walk_surplus_witness:
  "\<exists>res. fst (fetchRepoData (serve (Listing flat600)) ''o'' ''r'') = Inr res
     \<and> contentsResp (serve (Listing flat600) ''o'' ''r'') = Listing flat600
     \<and> length flat600 = 600
     \<and> (\<forall>it \<in> set flat600. \<exists>n p b. it = FileItem n p 1024 (Decoded b) \<and> \<not> shouldSkipFile p 1024)
     \<and> length (codeFiles res) = 500 \<and> filesSkipped res = 0
     \<and> filesSkipped res
        = int (length (fst (fetchAllFilesRecursive []
             (contentsResp (serve (Listing flat600) ''o'' ''r''))))) - int (filesAnalyzed res)"
proof -
  obtain res where r: "fst (fetchRepoData (serve (Listing flat600)) ''o'' ''r'') = Inr res"
    using fetchRepoData_serve by blast
  have c: "contentsResp (serve (Listing flat600) ''o'' ''r'') = Listing flat600"
    by (simp add: serve_def)
  have n: "length flat600 = 600" by (simp add: flat600_def threeDigits_length)
  from skipped_is_walk_surplus [of "serve (Listing flat600)" "''o''" "''r''" res flat600]
    r c n flat600_eligible
  show ?thesis by blast
qed

lemma not_skipped_ceiling_examples:
  "\<not> shouldSkipFile ''a.ts'' 1048576"
  "\<not> shouldSkipFile ''pkg/f0.ts'' 1048576"
  "\<not> shouldSkipFile ''pkg/f1.ts'' 1048576"
  "\<not> shouldSkipFile ''pkg/f2.ts'' 1048576"
  "\<not> shouldSkipFile ''pkg/f3.ts'' 1048576"
  "\<not> shouldSkipFile ''pkg/f4.ts'' 1048576"
  "\<not> shouldSkipFile ''pkg/f5.ts'' 1048576"
  "\<not> shouldSkipFile ''pkg/f6.ts'' 1048576"
  "\<not> shouldSkipFile ''pkg/f7.ts'' 1048576"
  "\<not> shouldSkipFile ''pkg/f8.ts'' 1048576"
  "\<not> shouldSkipFile ''pkg/f9.ts'' 1048576"
  "\<not> shouldSkipFile ''f0.ts'' 1048576"
  "\<not> shouldSkipFile ''f1.ts'' 1048576"
  "\<not> shouldSkipFile ''f2.ts'' 1048576"
  "\<not> shouldSkipFile ''f3.ts'' 1048576"
  "\<not> shouldSkipFile ''f4.ts'' 1048576"
  "\<not> shouldSkipFile ''f5.ts'' 1048576"
  "\<not> shouldSkipFile ''f6.ts'' 1048576"
  "\<not> shouldSkipFile ''f7.ts'' 1048576"
  "\<not> shouldSkipFile ''f8.ts'' 1048576"
  "\<not> shouldSkipFile ''f9.ts'' 1048576"
  "\<not> shouldSkipFile ''g.ts'' 1048575"
  "\<not> shouldSkipFile ''two.ts'' 2"
  "\<not> shouldSkipFile ''one.ts'' 1"
  "\<not> shouldSkipFile ''one.ts'' (Suc 0)"
  by (simp_all add: shouldSkipFile_def MAX_FILE_SIZE_def SKIP_DIRECTORIES_def SKIP_EXTENSIONS_def
      toLowerCase_def lowerChar_def substring_def)

lemma two_not_skipped: "\<not> shouldSkipFile ''two.ts'' 2"
  by (rule not_skipped_ceiling_examples)

lemma late_not_skipped: "\<not> shouldSkipFile ''late.ts'' 7"
  by (simp add: shouldSkipFile_def MAX_FILE_SIZE_def SKIP_DIRECTORIES_def SKIP_EXTENSIONS_def
      toLowerCase_def lowerChar_def substring_def)

lemma pkg_not_skipped: "toLowerCase ''pkg'' \<notin> SKIP_DIRECTORIES"
  by (simp add: SKIP_DIRECTORIES_def toLowerCase_def lowerChar_def)

lemma pkg_walk:
  "map (\<lambda>f. (path f, size' f)) (fst (fetchAllFilesRecursive ''pkg'' (Listing (tenFiles ''pkg/'' 1048576))))
     = map (\<lambda>c. (''pkg/f'' @ [c] @ ''.ts'', 1048576)) ''0123456789''"
  by (simp add: tenFiles_def not_skipped_ceiling_examples MAX_FILES_TO_ANALYZE_def
      MAX_TOTAL_CODE_SIZE_def)

lemma nearlyFull_walk:
  "map (\<lambda>f. (path f, size' f)) (fst (forItems nearlyFull [] 0))
     = map (\<lambda>c. (''f'' @ [c] @ ''.ts'', 1048576)) ''012345678'' @ [(''g.ts'', 1048575)]"
  by (simp add: nearlyFull_def tenFiles_def not_skipped_ceiling_examples MAX_FILES_TO_ANALYZE_def
      MAX_TOTAL_CODE_SIZE_def)


lemma small_collection:
  assumes "fst (fetchRepoData g ow rp) = Inr res"
    and "length (fst (fetchAllFilesRecursive [] (contentsResp (g ow rp)))) \<le> MAX_FILES_TO_ANALYZE"
  shows "totalCodeSize res
           = sum_list (map size' (fst (fetchAllFilesRecursive [] (contentsResp (g ow rp)))))"
    and "set (codeFiles res) = set (fst (fetchAllFilesRecursive [] (contentsResp (g ow rp))))"
  using assms(2)
  by (simp_all add: fetchRepoData_Inr(1,2) [OF assms(1)] sum_list_sort_key)

lemma sizes_of_pairs: "map size' fs = map snd (map (\<lambda>f. (path f, size' f)) fs)"
  by simp

lemma paths_of_pairs: "map path fs = map fst (map (\<lambda>f. (path f, size' f)) fs)"
  by simp

lemma nestedOver_walk:
  "map (\<lambda>f. (path f, size' f)) (fst (fetchAllFilesRecursive [] nestedOver))
     = (''a.ts'', 1048576) # map (\<lambda>c. (''pkg/f'' @ [c] @ ''.ts'', 1048576)) ''0123456789''"
  by (simp add: nestedOver_def tenFiles_def not_skipped_ceiling_examples pkg_not_skipped
      MAX_FILES_TO_ANALYZE_def MAX_TOTAL_CODE_SIZE_def)

lemma lateAdmission_walk:
  "map (\<lambda>f. (path f, size' f)) (fst (fetchAllFilesRecursive [] lateAdmission))
     = map (\<lambda>c. (''f'' @ [c] @ ''.ts'', 1048576)) ''012345678''
       @ [(''g.ts'', 1048575), (''one.ts'', 1)]"
  by (simp add: lateAdmission_def nearlyFull_def tenFiles_def not_skipped_ceiling_examples
      MAX_FILES_TO_ANALYZE_def MAX_TOTAL_CODE_SIZE_def)

text \<open>
  Claim C1, as stated, fails twice. Each call of the walk keeps its own running total, so the
  files of a subdirectory are merged without regard to the budget already used: one file of
  1 MiB at the root and ten of 1 MiB in a subdirectory give a returned list of 11 MiB. And a
  file that would overflow the size ceiling is skipped with \<open>continue\<close>: after ten files
  that leave one byte of the budget, the file \<open>two.ts\<close> of two bytes passes the filter and
  the count check and is refused for its size, yet the later file \<open>one.ts\<close> is admitted.
\<close>

theorem ceilings_counterexample:
  "map_sum id totalCodeSize (fst (fetchRepoData (serve nestedOver) ''o'' ''r'')) = Inr 11534336
   \<and> MAX_TOTAL_CODE_SIZE < 11534336
   \<and> \<not> shouldSkipFile ''two.ts'' 2
   \<and> length (fst (forItems nearlyFull [] 0)) < MAX_FILES_TO_ANALYZE
   \<and> MAX_TOTAL_CODE_SIZE < sum_list (map size' (fst (forItems nearlyFull [] 0))) + 2
   \<and> map_sum id (set \<circ> map path \<circ> codeFiles)
        (fst (fetchRepoData (serve lateAdmission) ''o'' ''r''))
       = Inr (set [''f0.ts'', ''f1.ts'', ''f2.ts'', ''f3.ts'', ''f4.ts'', ''f5.ts'', ''f6.ts'',
                   ''f7.ts'', ''f8.ts'', ''g.ts'', ''one.ts''])"
proof -
  obtain r1 where r1: "fst (fetchRepoData (serve nestedOver) ''o'' ''r'') = Inr r1"
    using fetchRepoData_serve by blast
  obtain r2 where r2: "fst (fetchRepoData (serve lateAdmission) ''o'' ''r'') = Inr r2"
    using fetchRepoData_serve by blast
  have c1: "contentsResp (serve nestedOver ''o'' ''r'') = nestedOver"
    and c2: "contentsResp (serve lateAdmission ''o'' ''r'') = lateAdmission"
    by (simp_all add: serve_def)
  have l1: "length (fst (fetchAllFilesRecursive [] nestedOver)) = 11"
    using arg_cong [OF nestedOver_walk, where f = length] by simp
  have l2: "length (fst (fetchAllFilesRecursive [] lateAdmission)) = 11"
    using arg_cong [OF lateAdmission_walk, where f = length] by simp
  have "totalCodeSize r1 = sum_list (map size' (fst (fetchAllFilesRecursive [] nestedOver)))"
    using small_collection(1) [OF r1] l1 by (simp add: c1 MAX_FILES_TO_ANALYZE_def)
  also have "\<dots> = 11534336"
    by (simp only: sizes_of_pairs nestedOver_walk) simp
  finally have a: "totalCodeSize r1 = 11534336" .
  have "set (codeFiles r2) = set (fst (fetchAllFilesRecursive [] lateAdmission))"
    using small_collection(2) [OF r2] l2 by (simp add: c2 MAX_FILES_TO_ANALYZE_def)
  then have "set (map path (codeFiles r2)) = set (map path (fst (fetchAllFilesRecursive [] lateAdmission)))"
    by simp
  also have "\<dots> = set [''f0.ts'', ''f1.ts'', ''f2.ts'', ''f3.ts'', ''f4.ts'', ''f5.ts'', ''f6.ts'',
                   ''f7.ts'', ''f8.ts'', ''g.ts'', ''one.ts'']"
    by (simp only: paths_of_pairs lateAdmission_walk) simp
  finally have b: "set (map path (codeFiles r2)) = set [''f0.ts'', ''f1.ts'', ''f2.ts'', ''f3.ts'',
      ''f4.ts'', ''f5.ts'', ''f6.ts'', ''f7.ts'', ''f8.ts'', ''g.ts'', ''one.ts'']" .
  have n: "length (fst (forItems nearlyFull [] 0)) < MAX_FILES_TO_ANALYZE"
    using arg_cong [OF nearlyFull_walk, where f = length] by (simp add: MAX_FILES_TO_ANALYZE_def)
  have "sum_list (map size' (fst (forItems nearlyFull [] 0))) = 10485759"
    by (simp only: sizes_of_pairs nearlyFull_walk) simp
  then have t: "MAX_TOTAL_CODE_SIZE < sum_list (map size' (fst (forItems nearlyFull [] 0))) + 2"
    by (simp add: MAX_TOTAL_CODE_SIZE_def)
  have m: "MAX_TOTAL_CODE_SIZE < 11534336" by (simp add: MAX_TOTAL_CODE_SIZE_def)
  from a b n t m two_not_skipped show ?thesis
    by (simp add: r1 r2)
qed


text \<open>
  Claim C1, amended. For every repository the returned list has at most 500 files. When the
  root listing has no directory entry, the sizes of the returned files sum to at most 10 MiB.
  Once the count check fires at a file entry that passed the filter, or the count or size
  check fires after a directory entry, no later entry of that listing contributes a file.
  A file that alone would overflow the size ceiling is skipped and the walk goes on.
\<close>

theorem ceilings_as_enforced:
  "(fst (fetchRepoData g ow rp) = Inr res \<longrightarrow> length (codeFiles res) \<le> MAX_FILES_TO_ANALYZE)
   \<and> (fst (fetchRepoData g ow rp) = Inr res \<longrightarrow> contentsResp (g ow rp) = Listing items \<longrightarrow>
        (\<forall>it \<in> set items. \<forall>dname dpath sub. it \<noteq> DirItem dname dpath sub) \<longrightarrow>
        sum_list (map size' (codeFiles res)) \<le> MAX_TOTAL_CODE_SIZE
        \<and> totalCodeSize res \<le> MAX_TOTAL_CODE_SIZE)
   \<and> (MAX_FILES_TO_ANALYZE \<le> length (fst (forItems xs [] 0)) \<longrightarrow>
        \<not> shouldSkipFile ipath isize \<longrightarrow>
        fst (forItems (xs @ FileItem name ipath isize resp # ys) [] 0) = fst (forItems xs [] 0))
   \<and> (toLowerCase dname \<notin> SKIP_DIRECTORIES \<longrightarrow>
        (MAX_FILES_TO_ANALYZE \<le> length (fst (forItems (zs @ [DirItem dname dpath sub]) [] 0))
         \<or> MAX_TOTAL_CODE_SIZE
              \<le> sum_list (map size' (fst (forItems (zs @ [DirItem dname dpath sub]) [] 0)))) \<longrightarrow>
        fst (forItems (zs @ DirItem dname dpath sub # ys) [] 0)
          = fst (forItems (zs @ [DirItem dname dpath sub]) [] 0))"
proof (intro conjI impI)
  assume r: "fst (fetchRepoData g ow rp) = Inr res"
  show "length (codeFiles res) \<le> MAX_FILES_TO_ANALYZE"
    by (simp add: fetchRepoData_Inr(1) [OF r])
next
  assume r: "fst (fetchRepoData g ow rp) = Inr res"
    and c: "contentsResp (g ow rp) = Listing items"
    and flat: "\<forall>it \<in> set items. \<forall>dname dpath sub. it \<noteq> DirItem dname dpath sub"
  let ?key = "\<lambda>f. priorityOrder (priority f)"
  let ?all = "fst (forItems items [] 0)"
  have "sum_list (map size' (codeFiles res)) \<le> sum_list (map size' (sort_key ?key ?all))"
    unfolding fetchRepoData_Inr(1) [OF r] c fst_fetchAll_Listing by (rule sum_list_take_le)
  also have "\<dots> = sum_list (map size' ?all)" by (rule sum_list_sort_key)
  also have "\<dots> \<le> MAX_TOTAL_CODE_SIZE"
    by (rule flat_total_bounded [OF flat]) simp_all
  finally show s: "sum_list (map size' (codeFiles res)) \<le> MAX_TOTAL_CODE_SIZE" .
  then show "totalCodeSize res \<le> MAX_TOTAL_CODE_SIZE"
    by (simp only: fetchRepoData_Inr(2) [OF r])
next
  assume "MAX_FILES_TO_ANALYZE \<le> length (fst (forItems xs [] 0))"
    and "\<not> shouldSkipFile ipath isize"
  then show "fst (forItems (xs @ FileItem name ipath isize resp # ys) [] 0) = fst (forItems xs [] 0)"
    by (rule count_stops_at_file)
next
  assume "toLowerCase dname \<notin> SKIP_DIRECTORIES"
    and "MAX_FILES_TO_ANALYZE \<le> length (fst (forItems (zs @ [DirItem dname dpath sub]) [] 0))
         \<or> MAX_TOTAL_CODE_SIZE
              \<le> sum_list (map size' (fst (forItems (zs @ [DirItem dname dpath sub]) [] 0)))"
  then show "fst (forItems (zs @ DirItem dname dpath sub # ys) [] 0)
          = fst (forItems (zs @ [DirItem dname dpath sub]) [] 0)"
    by (rule ceiling_stops_after_dir)
qed

lemma flat600_flat: "\<forall>it \<in> set flat600. \<forall>dname dpath sub. it \<noteq> DirItem dname dpath sub"
  by (auto simp: flat600_def)

lemma pkg_alone_walk:
  "map (\<lambda>f. (path f, size' f))
     (fst (forItems ([] @ [DirItem ''pkg'' ''pkg'' (Listing (tenFiles ''pkg/'' 1048576))]) [] 0))
     = map (\<lambda>c. (''pkg/f'' @ [c] @ ''.ts'', 1048576)) ''0123456789''"
  by (simp add: tenFiles_def not_skipped_ceiling_examples pkg_not_skipped
      MAX_FILES_TO_ANALYZE_def MAX_TOTAL_CODE_SIZE_def)

theorem ceilings_as_enforced_witness:
  "\<exists>res. fst (fetchRepoData (serve (Listing flat600)) ''o'' ''r'') = Inr res
     \<and> contentsResp (serve (Listing flat600) ''o'' ''r'') = Listing flat600
     \<and> (\<forall>it \<in> set flat600. \<forall>dname dpath sub. it \<noteq> DirItem dname dpath sub)
     \<and> length (codeFiles res) \<le> MAX_FILES_TO_ANALYZE
     \<and> totalCodeSize res \<le> MAX_TOTAL_CODE_SIZE
     \<and> MAX_FILES_TO_ANALYZE \<le> length (fst (forItems flat600 [] 0))
     \<and> \<not> shouldSkipFile ''late.ts'' 7
     \<and> fst (forItems (flat600 @ FileItem ''late.ts'' ''late.ts'' 7 (Decoded ''x'') # []) [] 0)
         = fst (forItems flat600 [] 0)
     \<and> toLowerCase ''pkg'' \<notin> SKIP_DIRECTORIES
     \<and> MAX_TOTAL_CODE_SIZE \<le> sum_list (map size'
           (fst (forItems ([] @ [DirItem ''pkg'' ''pkg'' (Listing (tenFiles ''pkg/'' 1048576))]) [] 0)))
     \<and> fst (forItems ([] @ DirItem ''pkg'' ''pkg'' (Listing (tenFiles ''pkg/'' 1048576))
                        # [FileItem ''late.ts'' ''late.ts'' 7 (Decoded ''x'')]) [] 0)
         = fst (forItems ([] @ [DirItem ''pkg'' ''pkg'' (Listing (tenFiles ''pkg/'' 1048576))]) [] 0)"
proof -
  obtain res where r: "fst (fetchRepoData (serve (Listing flat600)) ''o'' ''r'') = Inr res"
    using fetchRepoData_serve by blast
  have c: "contentsResp (serve (Listing flat600) ''o'' ''r'') = Listing flat600"
    by (simp add: serve_def)
  have n: "MAX_FILES_TO_ANALYZE \<le> length (fst (forItems flat600 [] 0))"
    using flat600_walk by (simp add: fst_fetchAll_Listing MAX_FILES_TO_ANALYZE_def
        del: fetchAllFilesRecursive.simps)
  have "sum_list (map size'
           (fst (forItems ([] @ [DirItem ''pkg'' ''pkg'' (Listing (tenFiles ''pkg/'' 1048576))]) [] 0)))
        = 10485760"
    by (simp only: sizes_of_pairs pkg_alone_walk) simp
  then have t: "MAX_TOTAL_CODE_SIZE \<le> sum_list (map size'
           (fst (forItems ([] @ [DirItem ''pkg'' ''pkg'' (Listing (tenFiles ''pkg/'' 1048576))]) [] 0)))"
    by (simp add: MAX_TOTAL_CODE_SIZE_def)
  note i1 = ceilings_as_enforced [of "serve (Listing flat600)" "''o''" "''r''" res flat600 flat600
      "''late.ts''" 7 "''late.ts''" "Decoded ''x''" "[]" "''pkg''" "[]" "''pkg''"
      "Listing (tenFiles ''pkg/'' 1048576)"]
  note i2 = ceilings_as_enforced [of "serve (Listing flat600)" "''o''" "''r''" res flat600 flat600
      "''late.ts''" 7 "''late.ts''" "Decoded ''x''" "[FileItem ''late.ts'' ''late.ts'' 7 (Decoded ''x'')]"
      "''pkg''" "[]" "''pkg''" "Listing (tenFiles ''pkg/'' 1048576)"]
  from i1 r have a: "length (codeFiles res) \<le> MAX_FILES_TO_ANALYZE" by (elim conjE) (rule mp)
  from i1 r c flat600_flat have b: "totalCodeSize res \<le> MAX_TOTAL_CODE_SIZE"
    by (elim conjE) simp
  from i1 n late_not_skipped
  have d: "fst (forItems (flat600 @ FileItem ''late.ts'' ''late.ts'' 7 (Decoded ''x'') # []) [] 0)
         = fst (forItems flat600 [] 0)"
    by (elim conjE) (simp del: forItems.simps)
  from i2 t pkg_not_skipped
  have e: "fst (forItems ([] @ DirItem ''pkg'' ''pkg'' (Listing (tenFiles ''pkg/'' 1048576))
                        # [FileItem ''late.ts'' ''late.ts'' 7 (Decoded ''x'')]) [] 0)
         = fst (forItems ([] @ [DirItem ''pkg'' ''pkg'' (Listing (tenFiles ''pkg/'' 1048576))]) [] 0)"
    by (elim conjE) (simp del: forItems.simps append_Nil)
  from r c n t a b d e flat600_flat late_not_skipped pkg_not_skipped
  show ?thesis by blast
qed

section \<open>Classification\<close>

lemma class_app_test:
  "(getFilePriority ''src/app.test.ts'', isTestFile ''src/app.test.ts'',
    isConfigFile ''src/app.test.ts'', isDocumentationFile ''src/app.test.ts'')
     = (High, True, False, False)"
  by code_simp

lemma class_jest_test:
  "(getFilePriority ''jest.test.ts'', isTestFile ''jest.test.ts'',
    isConfigFile ''jest.test.ts'', isDocumentationFile ''jest.test.ts'')
     = (High, True, True, False)"
  by code_simp

lemma class_tsconfig:
  "(getFilePriority ''tsconfig.ts'', isTestFile ''tsconfig.ts'',
    isConfigFile ''tsconfig.ts'', isDocumentationFile ''tsconfig.ts'')
     = (High, False, True, False)"
  by code_simp

lemma class_x:
  "(getFilePriority ''x.ts'', isTestFile ''x.ts'', isConfigFile ''x.ts'',
    isDocumentationFile ''x.ts'')
     = (High, False, False, False)"
  by code_simp

lemma class_readme_test:
  "(getFilePriority ''readme.test.ts'', isTestFile ''readme.test.ts'',
    isConfigFile ''readme.test.ts'', isDocumentationFile ''readme.test.ts'')
     = (High, True, False, True)"
  by code_simp

lemma class_readme_ts:
  "(getFilePriority ''readme.ts'', isTestFile ''readme.ts'', isConfigFile ''readme.ts'',
    isDocumentationFile ''readme.ts'')
     = (High, False, False, True)"
  by code_simp

lemma class_readme_json:
  "(getFilePriority ''readme.json'', isTestFile ''readme.json'', isConfigFile ''readme.json'',
    isDocumentationFile ''readme.json'')
     = (Medium, False, True, True)"
  by code_simp

lemma class_app:
  "(getFilePriority ''src/app.ts'', isTestFile ''src/app.ts'', isConfigFile ''src/app.ts'',
    isDocumentationFile ''src/app.ts'')
     = (High, False, False, False)"
  by code_simp

lemma class_README:
  "(getFilePriority ''README.md'', isTestFile ''README.md'', isConfigFile ''README.md'',
    isDocumentationFile ''README.md'')
     = (Medium, False, False, True)"
  by code_simp

lemma class_notes:
  "(getFilePriority ''notes'', isTestFile ''notes'', isConfigFile ''notes'',
    isDocumentationFile ''notes'')
     = (Low, False, False, False)"
  by code_simp


lemma scenarioA_filter:
  "\<not> shouldSkipFile ''README.md'' 1024" "\<not> shouldSkipFile ''src/app.ts'' 2048"
  "shouldSkipFile ''dist/bundle.min.js'' 512000"
  by (simp_all add: shouldSkipFile_def MAX_FILE_SIZE_def SKIP_DIRECTORIES_def SKIP_EXTENSIONS_def
      toLowerCase_def lowerChar_def substring_def)

lemma scenarioA_dirs:
  "toLowerCase ''dist'' \<in> SKIP_DIRECTORIES" "toLowerCase ''src'' \<notin> SKIP_DIRECTORIES"
  by (simp_all add: SKIP_DIRECTORIES_def toLowerCase_def lowerChar_def)

lemma scenarioA_walk:
  "map (\<lambda>f. (path f, priority f, isTest f, isConfig f, isDocumentation f))
       (fst (fetchAllFilesRecursive [] scenarioA))
     = [(''README.md'', Medium, False, False, True), (''src/app.ts'', High, False, False, False)]"
  using class_README class_app
  by (simp add: scenarioA_def scenarioA_filter scenarioA_dirs MAX_FILES_TO_ANALYZE_def
      MAX_TOTAL_CODE_SIZE_def)

lemma sort_two:
  "map F (sort_key (\<lambda>f. priorityOrder (priority f)) fs)
     = [(''src/app.ts'', High, False, False, False), (''README.md'', Medium, False, False, True)]"
  if "map F fs = [(''README.md'', Medium, False, False, True), (''src/app.ts'', High, False, False, False)]"
    and "F = (\<lambda>f. (path f, priority f, isTest f, isConfig f, isDocumentation f))"
proof -
  from that obtain a b where fs: "fs = [a, b]" and a: "priority a = Medium" and b: "priority b = High"
    and "F a = (''README.md'', Medium, False, False, True)"
    and "F b = (''src/app.ts'', High, False, False, False)"
    by (cases fs; cases "tl fs") auto
  then show ?thesis by (simp add: priorityOrder_def)
qed

lemma scenarioA_result:
  "map_sum id (map (\<lambda>f. (path f, priority f, isTest f, isConfig f, isDocumentation f)) \<circ> codeFiles)
       (fst (fetchRepoData (serve scenarioA) ''o'' ''r''))
     = Inr [(''src/app.ts'', High, False, False, False), (''README.md'', Medium, False, False, True)]"
proof -
  obtain res where r: "fst (fetchRepoData (serve scenarioA) ''o'' ''r'') = Inr res"
    using fetchRepoData_serve by blast
  have c: "contentsResp (serve scenarioA ''o'' ''r'') = scenarioA" by (simp add: serve_def)
  let ?F = "\<lambda>f. (path f, priority f, isTest f, isConfig f, isDocumentation f)"
  let ?all = "fst (fetchAllFilesRecursive [] scenarioA)"
  have "length ?all = 2" using arg_cong [OF scenarioA_walk, where f = length] by simp
  then have "codeFiles res = sort_key (\<lambda>f. priorityOrder (priority f)) ?all"
    by (simp add: fetchRepoData_Inr(1) [OF r] c MAX_FILES_TO_ANALYZE_def)
  then have "map ?F (codeFiles res)
      = [(''src/app.ts'', High, False, False, False), (''README.md'', Medium, False, False, True)]"
    using sort_two [OF scenarioA_walk refl] by simp
  with r show ?thesis by simp
qed

text \<open>
  Claim C5. Every path gets exactly one tier: high when a high-priority pattern matches,
  otherwise medium when a configuration or documentation pattern matches, otherwise low.
  Each role flag of a collected file is the answer of its own pattern list on the path, and
  the tier is the one computed from the path. The flags exclude neither one another nor the
  high tier: any two flags take all four combinations of values, and each flag is set on some
  high-priority path and unset on another. For the repository with \<open>src/app.ts\<close>,
  \<open>README.md\<close> and \<open>dist/bundle.min.js\<close> the result is the two files
  \<open>src/app.ts\<close> (high) and \<open>README.md\<close> (medium, documentation); the bundle is
  refused by the filter as well as by the directory skip-list.
\<close>

theorem priority_and_flags:
  "(getFilePriority p = High \<longleftrightarrow> list_ex (\<lambda>r. test r p) HIGH_PRIORITY_PATTERNS)
   \<and> (getFilePriority p = Medium \<longleftrightarrow>
        \<not> list_ex (\<lambda>r. test r p) HIGH_PRIORITY_PATTERNS
        \<and> (isConfigFile p \<or> isDocumentationFile p))
   \<and> (getFilePriority p = Low \<longleftrightarrow>
        \<not> list_ex (\<lambda>r. test r p) HIGH_PRIORITY_PATTERNS
        \<and> \<not> isConfigFile p \<and> \<not> isDocumentationFile p)
   \<and> (f \<in> set (fst (fetchAllFilesRecursive q l)) \<longrightarrow>
        priority f = getFilePriority (path f)
        \<and> isTest f = list_ex (\<lambda>r. test r (path f)) TEST_PATTERNS
        \<and> isConfig f = list_ex (\<lambda>r. test r (path f)) CONFIG_PATTERNS
        \<and> isDocumentation f = list_ex (\<lambda>r. test r (path f)) DOC_PATTERNS)
   \<and> (\<exists>p1. isTestFile p1 = b1 \<and> isConfigFile p1 = b2)
   \<and> (\<exists>p2. isTestFile p2 = b1 \<and> isDocumentationFile p2 = b2)
   \<and> (\<exists>p3. isConfigFile p3 = b1 \<and> isDocumentationFile p3 = b2)
   \<and> (\<exists>p4. getFilePriority p4 = High \<and> isTestFile p4 = b1)
   \<and> (\<exists>p5. getFilePriority p5 = High \<and> isConfigFile p5 = b1)
   \<and> (\<exists>p6. getFilePriority p6 = High \<and> isDocumentationFile p6 = b1)
   \<and> getFilePriority ''src/app.test.ts'' = High \<and> isTestFile ''src/app.test.ts''
   \<and> shouldSkipFile ''dist/bundle.min.js'' 512000
   \<and> map_sum id
        (map (\<lambda>f. (path f, priority f, isTest f, isConfig f, isDocumentation f)) \<circ> codeFiles)
        (fst (fetchRepoData (serve scenarioA) ''o'' ''r''))
       = Inr [(''src/app.ts'', High, False, False, False),
              (''README.md'', Medium, False, False, True)]"
proof (intro conjI impI)
  show "getFilePriority p = High \<longleftrightarrow> list_ex (\<lambda>r. test r p) HIGH_PRIORITY_PATTERNS"
    by (simp add: getFilePriority_def)
  show "getFilePriority p = Medium \<longleftrightarrow>
        \<not> list_ex (\<lambda>r. test r p) HIGH_PRIORITY_PATTERNS
        \<and> (isConfigFile p \<or> isDocumentationFile p)"
    by (simp add: getFilePriority_def isConfigFile_def isDocumentationFile_def)
  show "getFilePriority p = Low \<longleftrightarrow>
        \<not> list_ex (\<lambda>r. test r p) HIGH_PRIORITY_PATTERNS
        \<and> \<not> isConfigFile p \<and> \<not> isDocumentationFile p"
    by (simp add: getFilePriority_def isConfigFile_def isDocumentationFile_def)
next
  assume "f \<in> set (fst (fetchAllFilesRecursive q l))"
  with walk_collected_ok(1) have ok: "collected_ok f" by blast
  then show "priority f = getFilePriority (path f)"
    and "isTest f = list_ex (\<lambda>r. test r (path f)) TEST_PATTERNS"
    and "isConfig f = list_ex (\<lambda>r. test r (path f)) CONFIG_PATTERNS"
    and "isDocumentation f = list_ex (\<lambda>r. test r (path f)) DOC_PATTERNS"
    by (simp_all add: collected_ok_def isTestFile_def isConfigFile_def isDocumentationFile_def)
next
  show "\<exists>p1. isTestFile p1 = b1 \<and> isConfigFile p1 = b2"
    using class_jest_test class_app_test class_tsconfig class_x
    by (cases b1; cases b2) (simp; blast)+
  show "\<exists>p2. isTestFile p2 = b1 \<and> isDocumentationFile p2 = b2"
    using class_readme_test class_app_test class_readme_ts class_x
    by (cases b1; cases b2) (simp; blast)+
  show "\<exists>p3. isConfigFile p3 = b1 \<and> isDocumentationFile p3 = b2"
    using class_readme_json class_tsconfig class_readme_ts class_x
    by (cases b1; cases b2) (simp; blast)+
  show "\<exists>p4. getFilePriority p4 = High \<and> isTestFile p4 = b1"
    using class_app_test class_x by (cases b1) (simp; blast)+
  show "\<exists>p5. getFilePriority p5 = High \<and> isConfigFile p5 = b1"
    using class_tsconfig class_x by (cases b1) (simp; blast)+
  show "\<exists>p6. getFilePriority p6 = High \<and> isDocumentationFile p6 = b1"
    using class_readme_ts class_x by (cases b1) (simp; blast)+
  show "getFilePriority ''src/app.test.ts'' = High" and "isTestFile ''src/app.test.ts''"
    using class_app_test by simp_all
  show "shouldSkipFile ''dist/bundle.min.js'' 512000" by (rule scenarioA_filter)
  show "map_sum id
        (map (\<lambda>f. (path f, priority f, isTest f, isConfig f, isDocumentation f)) \<circ> codeFiles)
        (fst (fetchRepoData (serve scenarioA) ''o'' ''r''))
       = Inr [(''src/app.ts'', High, False, False, False),
              (''README.md'', Medium, False, False, True)]"
    by (rule scenarioA_result)
qed

lemma scenarioA_member:
  "\<exists>f. f \<in> set (fst (fetchAllFilesRecursive [] scenarioA)) \<and> path f = ''src/app.ts''"
proof -
  have "''src/app.ts'' \<in> set (map path (fst (fetchAllFilesRecursive [] scenarioA)))"
    using arg_cong [OF scenarioA_walk, where f = "map fst"] by (simp add: comp_def)
  then show ?thesis by auto
qed

theorem priority_and_flags_witness:
  "\<exists>f. f \<in> set (fst (fetchAllFilesRecursive [] scenarioA)) \<and> path f = ''src/app.ts''
     \<and> priority f = getFilePriority (path f)
     \<and> isTest f = list_ex (\<lambda>r. test r (path f)) TEST_PATTERNS
     \<and> isConfig f = list_ex (\<lambda>r. test r (path f)) CONFIG_PATTERNS
     \<and> isDocumentation f = list_ex (\<lambda>r. test r (path f)) DOC_PATTERNS"
proof -
  from scenarioA_member obtain f where f: "f \<in> set (fst (fetchAllFilesRecursive [] scenarioA))"
    and p: "path f = ''src/app.ts''" by blast
  from priority_and_flags [of "''src/app.ts''" f "[]" scenarioA True True] f
  have "priority f = getFilePriority (path f)
     \<and> isTest f = list_ex (\<lambda>r. test r (path f)) TEST_PATTERNS
     \<and> isConfig f = list_ex (\<lambda>r. test r (path f)) CONFIG_PATTERNS
     \<and> isDocumentation f = list_ex (\<lambda>r. test r (path f)) DOC_PATTERNS"
    by (elim conjE) (rule mp)
  with f p show ?thesis by blast
qed

end
